theory Spec2Isabelle
  imports Main
begin

section \<open>JavaScript strings\<close>

text \<open>
  A string is modelled by the list of its code units, as \<open>char list\<close>; the model covers
  the code units below 256. The white space of \<^verbatim>\<open>String.prototype.trim\<close> and of the
  regular-expression class \<^verbatim>\<open>\s\<close> in that range is TAB, LF, VT, FF, CR, SPACE and
  NO-BREAK SPACE.
\<close>

definition is_ws :: "char \<Rightarrow> bool" where
  "is_ws c = (c \<in> set [CHR 0x09, CHR 0x0A, CHR 0x0B, CHR 0x0C, CHR 0x0D, CHR 0x20, CHR 0xA0])"

text \<open>The classes \<^verbatim>\<open>\d\<close>, \<^verbatim>\<open>\w\<close> and \<^verbatim>\<open>[0-9A-Fa-f]\<close>.\<close>

definition is_digit :: "char \<Rightarrow> bool" where
  "is_digit c = (c \<in> set ''0123456789'')"

definition is_word :: "char \<Rightarrow> bool" where
  "is_word c =
     (c \<in> set ''abcdefghijklmnopqrstuvwxyzABCDEFGHIJKLMNOPQRSTUVWXYZ0123456789_'')"

definition is_hex :: "char \<Rightarrow> bool" where
  "is_hex c = (c \<in> set ''0123456789ABCDEFabcdef'')"

text \<open>\<^verbatim>\<open>s.trim()\<close>.\<close>

definition trim :: "string \<Rightarrow> string" where
  "trim s = rev (dropWhile is_ws (rev (dropWhile is_ws s)))"

text \<open>\<^verbatim>\<open>s.split('\n')\<close>: never empty; the empty string gives one empty line.\<close>

fun split_nl :: "string \<Rightarrow> string list" where
  "split_nl [] = [[]]"
| "split_nl (c # cs) =
     (if c = CHR 0x0A then [] # split_nl cs
      else (case split_nl cs of [] \<Rightarrow> [[c]] | l # ls \<Rightarrow> (c # l) # ls))"

text \<open>\<^verbatim>\<open>xs.join(sep)\<close>.\<close>

fun join :: "string \<Rightarrow> string list \<Rightarrow> string" where
  "join sep [] = []"
| "join sep [x] = x"
| "join sep (x # y # ys) = x @ sep @ join sep (y # ys)"

text \<open>The decimal text of a count, as a template literal prints it.\<close>

function dec :: "nat \<Rightarrow> string" where
  "dec n = (if n < 10 then [''0123456789'' ! n]
            else dec (n div 10) @ [''0123456789'' ! (n mod 10)])"
  by pat_completeness auto
termination
  by (relation "measure id") auto

declare dec.simps [simp del]

text \<open>The template \<^verbatim>\<open>count > 1 ? `${text} [x${count}]` : text\<close> shared by all variants.\<close>

definition annotate :: "string \<Rightarrow> nat \<Rightarrow> string" where
  "annotate text n = (if n > 1 then text @ '' [x'' @ dec n @ '']'' else text)"

section \<open>Global regular-expression replacement\<close>

text \<open>
  \<^verbatim>\<open>s.replace(/re/g, r)\<close> scans \<open>s\<close> from the left. A matcher gives, for the character
  before the current position (for \<^verbatim>\<open>\b\<close>) and the text from the current position on,
  the length of the match that starts there, if any. After a match of positive length
  the scan resumes behind it; after an empty match the replacement is inserted and the
  scan moves one character on; where nothing matches the character is copied.
\<close>

function replace_all ::
  "(char option \<Rightarrow> string \<Rightarrow> nat option) \<Rightarrow> string \<Rightarrow> char option \<Rightarrow> string \<Rightarrow> string" where
  "replace_all m r prev [] = (case m prev [] of None \<Rightarrow> [] | Some n \<Rightarrow> r)"
| "replace_all m r prev (c # cs) =
     (case m prev (c # cs) of
        None \<Rightarrow> c # replace_all m r (Some c) cs
      | Some 0 \<Rightarrow> r @ c # replace_all m r (Some c) cs
      | Some (Suc n) \<Rightarrow> r @ replace_all m r (Some ((c # cs) ! n)) (drop n cs))"
  by pat_completeness auto
termination
  by (relation "measure (\<lambda>(m, r, prev, s). length s)") auto

text \<open>A fixed sequence of character classes; the result is the text behind it.\<close>

fun match_classes :: "(char \<Rightarrow> bool) list \<Rightarrow> string \<Rightarrow> string option" where
  "match_classes [] s = Some s"
| "match_classes (p # ps) [] = None"
| "match_classes (p # ps) (c # cs) = (if p c then match_classes ps cs else None)"

text \<open>\<^verbatim>\<open>\b\<close> between a character (or the start) and a character (or the end).\<close>

definition word_opt :: "char option \<Rightarrow> bool" where
  "word_opt x = (case x of None \<Rightarrow> False | Some c \<Rightarrow> is_word c)"

definition first_opt :: "string \<Rightarrow> char option" where
  "first_opt s = (case s of [] \<Rightarrow> None | c # _ \<Rightarrow> Some c)"

definition boundary :: "char option \<Rightarrow> char option \<Rightarrow> bool" where
  "boundary a b = (word_opt a \<noteq> word_opt b)"

subsection \<open>The patterns of \<^verbatim>\<open>normalizeErrorMessage\<close> (the current page)\<close>

text \<open>\<^verbatim>\<open>/\[[\w\s]+\]/\<close>: the closing bracket is outside the class, so the greedy run
  is the whole run of class characters.\<close>

definition tag_char :: "char \<Rightarrow> bool" where
  "tag_char c = (is_word c \<or> is_ws c)"

definition match_tag :: "char option \<Rightarrow> string \<Rightarrow> nat option" where
  "match_tag prev s =
     (case s of
        [] \<Rightarrow> None
      | c # r \<Rightarrow>
          if c \<noteq> CHR ''['' then None
          else let run = takeWhile tag_char r
               in if run = [] then None
                  else if first_opt (drop (length run) r) = Some CHR '']''
                       then Some (length run + 2) else None)"

text \<open>\<^verbatim>\<open>/\d+/\<close>.\<close>

definition match_digits :: "char option \<Rightarrow> string \<Rightarrow> nat option" where
  "match_digits prev s =
     (let run = takeWhile is_digit s in if run = [] then None else Some (length run))"

text \<open>The two replacements, in the order of the source, then \<^verbatim>\<open>trim\<close>.\<close>

definition tag_pass :: "string \<Rightarrow> string" where
  "tag_pass s = replace_all match_tag ''[ID]'' None s"

definition digit_pass :: "string \<Rightarrow> string" where
  "digit_pass s = replace_all match_digits ''<num>'' None s"

definition normalizeErrorMessage :: "string \<Rightarrow> string" where
  "normalizeErrorMessage message = trim (digit_pass (tag_pass message))"

subsection \<open>The patterns of \<^verbatim>\<open>normalizeLine\<close> (the line-based variant)\<close>

text \<open>\<^verbatim>\<open>/\d{4}-\d{2}-\d{2}[ T]\d{2}:\d{2}:\d{2}(?:\.\d+)?/\<close>: nineteen characters of
  fixed classes, then the fraction when a dot and at least one digit follow.\<close>

definition iso_classes :: "(char \<Rightarrow> bool) list" where
  "iso_classes =
     [is_digit, is_digit, is_digit, is_digit, (=) CHR ''-'', is_digit, is_digit,
      (=) CHR ''-'', is_digit, is_digit, (\<lambda>c. c = CHR '' '' \<or> c = CHR ''T''),
      is_digit, is_digit, (=) CHR '':'', is_digit, is_digit, (=) CHR '':'',
      is_digit, is_digit]"

definition fraction_length :: "string \<Rightarrow> nat" where
  "fraction_length r =
     (case r of
        [] \<Rightarrow> 0
      | d # r' \<Rightarrow>
          if d = CHR ''.'' \<and> takeWhile is_digit r' \<noteq> []
          then 1 + length (takeWhile is_digit r') else 0)"

definition match_iso :: "char option \<Rightarrow> string \<Rightarrow> nat option" where
  "match_iso prev s =
     (case match_classes iso_classes s of
        None \<Rightarrow> None
      | Some r \<Rightarrow> Some (19 + fraction_length r))"

text \<open>\<^verbatim>\<open>/\[\w{3}\s+\d{2}\s+\d{2}:\d{2}:\d{2}\]/\<close>: each \<^verbatim>\<open>\s+\<close> is followed by a digit,
  so it takes the whole run of white space.\<close>

definition match_syslog :: "char option \<Rightarrow> string \<Rightarrow> nat option" where
  "match_syslog prev s =
     (case match_classes [(=) CHR ''['', is_word, is_word, is_word, is_ws] s of
        None \<Rightarrow> None
      | Some r1 \<Rightarrow>
          (case match_classes [is_digit, is_digit, is_ws] (dropWhile is_ws r1) of
             None \<Rightarrow> None
           | Some r2 \<Rightarrow>
               (case match_classes
                       [is_digit, is_digit, (=) CHR '':'', is_digit, is_digit,
                        (=) CHR '':'', is_digit, is_digit, (=) CHR '']'']
                       (dropWhile is_ws r2) of
                  None \<Rightarrow> None
                | Some r3 \<Rightarrow> Some (length s - length r3))))"

text \<open>\<^verbatim>\<open>/\b0x[0-9A-Fa-f]+\b/\<close>: the text starts and ends with word characters, so the
  boundaries ask for a non-word character (or an end of the text) on either side; a
  shorter run of hexadecimal digits would end before a word character.\<close>

definition match_addr :: "char option \<Rightarrow> string \<Rightarrow> nat option" where
  "match_addr prev s =
     (if \<not> boundary prev (first_opt s) then None
      else case match_classes [(=) CHR ''0'', (=) CHR ''x'', is_hex] s of
             None \<Rightarrow> None
           | Some r \<Rightarrow>
               if boundary (Some CHR ''0'') (first_opt (dropWhile is_hex r))
               then Some (3 + length (takeWhile is_hex r)) else None)"

text \<open>\<^verbatim>\<open>/\b\d{4,}\b/\<close>.\<close>

definition match_num :: "char option \<Rightarrow> string \<Rightarrow> nat option" where
  "match_num prev s =
     (let run = takeWhile is_digit s
      in if length run \<ge> 4 \<and> boundary prev (first_opt s)
            \<and> boundary (Some CHR ''0'') (first_opt (dropWhile is_digit s))
         then Some (length run) else None)"

text \<open>The four replacements, in the order of the source, then \<^verbatim>\<open>trim\<close>.\<close>

definition iso_pass :: "string \<Rightarrow> string" where
  "iso_pass s = replace_all match_iso ''<TIME>'' None s"

definition syslog_pass :: "string \<Rightarrow> string" where
  "syslog_pass s = replace_all match_syslog ''<TIME>'' None s"

definition addr_pass :: "string \<Rightarrow> string" where
  "addr_pass s = replace_all match_addr ''<ADDR>'' None s"

definition num_pass :: "string \<Rightarrow> string" where
  "num_pass s = replace_all match_num ''<NUM>'' None s"

definition normalizeLine :: "string \<Rightarrow> string" where
  "normalizeLine line = trim (num_pass (addr_pass (syslog_pass (iso_pass line))))"

section \<open>The three block and line deduplicators\<close>

text \<open>
  The repository holds several functions named \<^verbatim>\<open>deduplicateLog\<close>. Three of them count
  occurrences over the whole input: the one of the current page component \<^verbatim>\<open>Home\<close> (the
  file that defines \<^verbatim>\<open>normalizeErrorMessage\<close>), which groups lines into blocks and
  compares them by \<^verbatim>\<open>normalizeErrorMessage\<close>; an earlier one that groups lines into blocks
  and compares their exact text; and an earlier one that works line by line and compares
  by \<^verbatim>\<open>normalizeLine\<close>. They are modelled side by side as \<open>deduplicateLog_home\<close>,
  \<open>deduplicateLog_blocks\<close> and \<open>deduplicateLog_lines\<close>.
\<close>

subsection \<open>Exact blocks\<close>

text \<open>The first loop: a blank line (empty after \<^verbatim>\<open>trim\<close>) closes the current block; the
  block still open at the end is closed too.\<close>

fun split_blocks :: "string list \<Rightarrow> string list \<Rightarrow> string list list \<Rightarrow> string list list" where
  "split_blocks [] currentBlock blocks =
     (if length currentBlock > 0 then blocks @ [currentBlock] else blocks)"
| "split_blocks (line # lines) currentBlock blocks =
     (if trim line = [] then
        (if length currentBlock > 0 then split_blocks lines [] (blocks @ [currentBlock])
         else split_blocks lines currentBlock blocks)
      else split_blocks lines (currentBlock @ [line]) blocks)"

text \<open>The second loop: \<^verbatim>\<open>blockCounts\<close> maps the joined text of a block to its count;
  \<^verbatim>\<open>uniqueBlocks\<close> collects the blocks whose text was new.\<close>

fun count_blocks ::
  "string list list \<Rightarrow> (string \<rightharpoonup> nat) \<Rightarrow> string list list
     \<Rightarrow> (string \<rightharpoonup> nat) \<times> string list list" where
  "count_blocks [] blockCounts uniqueBlocks = (blockCounts, uniqueBlocks)"
| "count_blocks (block # blocks) blockCounts uniqueBlocks =
     (let blockStr = join ''\<newline>'' block
      in case blockCounts blockStr of
           Some n \<Rightarrow> count_blocks blocks (blockCounts(blockStr \<mapsto> n + 1)) uniqueBlocks
         | None \<Rightarrow> count_blocks blocks (blockCounts(blockStr \<mapsto> 1)) (uniqueBlocks @ [block]))"

definition deduplicateLog_blocks :: "string \<Rightarrow> string" where
  "deduplicateLog_blocks log =
     (let lines = split_nl log;
          blocks = split_blocks lines [] [];
          (blockCounts, uniqueBlocks) = count_blocks blocks Map.empty [];
          result = map (\<lambda>block.
                     let blockStr = join ''\<newline>'' block
                     in case blockCounts blockStr of
                          Some n \<Rightarrow> annotate blockStr n
                        | None \<Rightarrow> blockStr) uniqueBlocks
      in join ''\<newline>\<newline>'' result)"

subsection \<open>Normalized blocks (the current page)\<close>

record errorEntry =
  count :: nat
  originalMessage :: string

text \<open>The body of \<^verbatim>\<open>if (currentErrorBlock.length > 0)\<close>: count the block under its
  normalized text, and keep its original text when the normalized text is new.\<close>

definition record_block ::
  "(string \<rightharpoonup> errorEntry) \<times> string list \<Rightarrow> string list
     \<Rightarrow> (string \<rightharpoonup> errorEntry) \<times> string list" where
  "record_block st currentErrorBlock =
     (let (errorCache, processedLines) = st;
          originalBlock = join ''\<newline>'' currentErrorBlock;
          normalizedBlock = normalizeErrorMessage originalBlock
      in case errorCache normalizedBlock of
           Some entry \<Rightarrow>
             (errorCache(normalizedBlock \<mapsto> entry\<lparr>count := count entry + 1\<rparr>), processedLines)
         | None \<Rightarrow>
             (errorCache(normalizedBlock \<mapsto> \<lparr>count = 1, originalMessage = originalBlock\<rparr>),
              processedLines @ [originalBlock]))"

text \<open>The loop over the lines; \<open>rest = []\<close> is the test \<^verbatim>\<open>i === lines.length - 1\<close>.\<close>

fun dedup_scan ::
  "string list \<Rightarrow> (string \<rightharpoonup> errorEntry) \<times> string list \<Rightarrow> string list
     \<Rightarrow> (string \<rightharpoonup> errorEntry) \<times> string list" where
  "dedup_scan [] st currentErrorBlock = st"
| "dedup_scan (line # rest) st currentErrorBlock =
     (if trim line = [] \<or> rest = [] then
        let cur = (if rest = [] \<and> trim line \<noteq> [] then currentErrorBlock @ [line]
                   else currentErrorBlock);
            st1 = (if length cur > 0 then record_block st cur else st);
            st2 = (if trim line = [] then (fst st1, snd st1 @ [[]]) else st1)
        in dedup_scan rest st2 []
      else dedup_scan rest st (currentErrorBlock @ [line]))"

definition deduplicateLog_home :: "string \<Rightarrow> string" where
  "deduplicateLog_home log =
     (let lines = split_nl log;
          (errorCache, processedLines) = dedup_scan lines (Map.empty, []) [];
          result = map (\<lambda>line.
                     if line = [] then []
                     else case errorCache (normalizeErrorMessage line) of
                            Some entry \<Rightarrow> annotate line (count entry)
                          | None \<Rightarrow> line) processedLines
      in join ''\<newline>'' result)"

subsection \<open>Normalized lines\<close>

text \<open>The entry \<^verbatim>\<open>{ original, count }\<close>; its \<^verbatim>\<open>count\<close> is named \<open>occurrence_count\<close>
  here, apart from the field of \<open>errorEntry\<close>.\<close>

record seenEntry =
  original :: string
  occurrence_count :: nat

text \<open>\<^verbatim>\<open>seen\<close> is a \<^verbatim>\<open>Map\<close> read back in insertion order by \<^verbatim>\<open>seen.values()\<close>, hence
  an association list; \<open>bump_seen\<close> is \<^verbatim>\<open>seen.get(norm)!.count++\<close>.\<close>

fun bump_seen :: "string \<Rightarrow> (string \<times> seenEntry) list \<Rightarrow> (string \<times> seenEntry) list" where
  "bump_seen norm [] = []"
| "bump_seen norm ((k, e) # seen) =
     (if k = norm then (k, e\<lparr>occurrence_count := occurrence_count e + 1\<rparr>) # seen
      else (k, e) # bump_seen norm seen)"

fun scan_lines :: "string list \<Rightarrow> (string \<times> seenEntry) list \<Rightarrow> (string \<times> seenEntry) list" where
  "scan_lines [] seen = seen"
| "scan_lines (line # lines) seen =
     (let norm = normalizeLine line
      in if map_of seen norm \<noteq> None then scan_lines lines (bump_seen norm seen)
         else scan_lines lines (seen @ [(norm, \<lparr>original = line, occurrence_count = 1\<rparr>)]))"

definition deduplicateLog_lines :: "string \<Rightarrow> string" where
  "deduplicateLog_lines log =
     (let lines = filter (\<lambda>l. length l > 0) (map trim (split_nl log));
          seen = scan_lines lines [];
          dedupedLines = map (\<lambda>(k, e). annotate (original e) (occurrence_count e)) seen
      in join ''\<newline>'' dedupedLines)"

section \<open>Reference notions for the deduplicators\<close>

text \<open>
  The properties speak of the blocks of an input, of how often a fingerprint occurs
  among them and of the order in which fingerprints are first seen. The number of
  occurrences and the first occurrences are defined here on lists, without reference to
  the loops they are compared with.
\<close>

text \<open>How many elements of \<open>xs\<close> have the key \<open>k\<close> under \<open>f\<close>.\<close>

definition occurrences :: "('a \<Rightarrow> 'k) \<Rightarrow> 'a list \<Rightarrow> 'k \<Rightarrow> nat" where
  "occurrences f xs k = length (filter (\<lambda>x. f x = k) xs)"

text \<open>The elements whose key occurs at no earlier position, in their order in \<open>xs\<close>.\<close>

definition first_seen :: "('a \<Rightarrow> 'k) \<Rightarrow> 'a list \<Rightarrow> 'a list" where
  "first_seen f xs =
     map ((!) xs) (filter (\<lambda>i. f (xs ! i) \<notin> f ` set (take i xs)) [0..<length xs])"

text \<open>The counting map that a scan of \<open>xs\<close> must have built.\<close>

definition counts_of :: "('a \<Rightarrow> 'k) \<Rightarrow> 'a list \<Rightarrow> 'k \<rightharpoonup> nat" where
  "counts_of f xs k = (if k \<in> f ` set xs then Some (occurrences f xs k) else None)"

text \<open>A text with the annotation for the number of elements of \<open>bs\<close> sharing its key.\<close>

definition annotate_by :: "(string \<Rightarrow> 'k) \<Rightarrow> string list \<Rightarrow> string \<Rightarrow> string" where
  "annotate_by f bs t = annotate t (occurrences f bs (f t))"

text \<open>The blocks of an input as the first loop of the exact variant segments them, each as
  its joined text.\<close>

definition input_blocks :: "string \<Rightarrow> string list" where
  "input_blocks log = map (join ''\<newline>'') (split_blocks (split_nl log) [] [])"

text \<open>The intermediate values of the three functions that hold the texts to emit, and the
  value of \<^verbatim>\<open>lines\<close> in the line-based variant (every line trimmed, the empty results
  dropped).\<close>

definition trimmed_lines :: "string \<Rightarrow> string list" where
  "trimmed_lines log = filter (\<lambda>l. length l > 0) (map trim (split_nl log))"

definition uniqueBlocks_of :: "string \<Rightarrow> string list list" where
  "uniqueBlocks_of log = snd (count_blocks (split_blocks (split_nl log) [] []) Map.empty [])"

definition processedLines_of :: "string \<Rightarrow> string list" where
  "processedLines_of log = snd (dedup_scan (split_nl log) (Map.empty, []) [])"

definition seen_of :: "string \<Rightarrow> (string \<times> seenEntry) list" where
  "seen_of log = scan_lines (filter (\<lambda>l. length l > 0) (map trim (split_nl log))) []"

text \<open>The state of the current page's loop once the blocks \<open>prior\<close> have been recorded:
  the cache counts them by fingerprint, and the non-empty entries of \<^verbatim>\<open>processedLines\<close>
  are the first block of each fingerprint.\<close>

definition scan_inv :: "string list \<Rightarrow> (string \<rightharpoonup> errorEntry) \<times> string list \<Rightarrow> bool" where
  "scan_inv prior st =
     ((\<forall>k. map_option count (fst st k) = counts_of normalizeErrorMessage prior k)
      \<and> filter (\<lambda>t. t \<noteq> []) (snd st) = first_seen normalizeErrorMessage prior)"

text \<open>The \<^verbatim>\<open>seen\<close> map of the line-based variant once the lines \<open>prior\<close> have been scanned.\<close>

definition seen_after :: "string list \<Rightarrow> (string \<times> seenEntry) list" where
  "seen_after prior =
     map (\<lambda>l. (normalizeLine l,
               \<lparr>original = l, occurrence_count = occurrences normalizeLine prior (normalizeLine l)\<rparr>))
         (first_seen normalizeLine prior)"

subsection \<open>The shape of blocks and of outputs\<close>

text \<open>A text all of whose lines are non-blank: what the join of a block looks like.\<close>

definition block_text :: "string \<Rightarrow> bool" where
  "block_text t = (\<forall>l \<in> set (split_nl t). trim l \<noteq> [])"

text \<open>A list of entries, each empty (a blank line) or a block text, in which every block
  text but the last entry is followed by an empty entry.\<close>

fun wf_entries :: "string list \<Rightarrow> bool" where
  "wf_entries [] = True"
| "wf_entries [t] = (t = [] \<or> block_text t)"
| "wf_entries (t # u # r) = ((t = [] \<or> (block_text t \<and> u = [])) \<and> wf_entries (u # r))"

text \<open>The entries of blocks separated by one blank line.\<close>

fun sep_entries :: "string list \<Rightarrow> string list" where
  "sep_entries [] = []"
| "sep_entries [e] = [e]"
| "sep_entries (e # e' # r) = e # [] # sep_entries (e' # r)"

text \<open>Lines that start and end with a non-blank line and have no two blank lines in a
  row.\<close>

fun well_spaced :: "string list \<Rightarrow> bool" where
  "well_spaced [] = False"
| "well_spaced [l] = (trim l \<noteq> [])"
| "well_spaced (l # m # r) =
     (trim l \<noteq> [] \<and> (if trim m = [] then well_spaced r else well_spaced (m # r)))"

text \<open>Lines that are non-blank and contain no newline.\<close>

definition good_lines :: "string list \<Rightarrow> bool" where
  "good_lines b = (\<forall>l \<in> set b. trim l \<noteq> [] \<and> CHR 0x0A \<notin> set l)"

text \<open>Well-formed entries to which a block text may be appended.\<close>

definition open_entries :: "string list \<Rightarrow> bool" where
  "open_entries P = (wf_entries P \<and> (P = [] \<or> last P = []))"

text \<open>The mapping of the current page from an entry of \<^verbatim>\<open>processedLines\<close> to its
  output, with the count read from the reference notion.\<close>

definition home_format :: "string \<Rightarrow> string \<Rightarrow> string" where
  "home_format log t =
     (if t = [] then [] else annotate_by normalizeErrorMessage (input_blocks log) t)"

subsection \<open>Texts that differ in their digits only\<close>

text \<open>Two texts are digit-similar when one results from the other by replacing runs of
  digits by non-empty runs of digits.\<close>

inductive digit_similar :: "string \<Rightarrow> string \<Rightarrow> bool" where
  ds_Nil: "digit_similar [] []"
| ds_Cons: "\<not> is_digit c \<Longrightarrow> digit_similar s t \<Longrightarrow> digit_similar (c # s) (c # t)"
| ds_run: "d1 \<noteq> [] \<Longrightarrow> d2 \<noteq> [] \<Longrightarrow> \<forall>c \<in> set d1. is_digit c \<Longrightarrow> \<forall>c \<in> set d2. is_digit c \<Longrightarrow>
           digit_similar s t \<Longrightarrow> digit_similar (d1 @ s) (d2 @ t)"

subsection \<open>Tokens in their context\<close>

text \<open>
  A text ends numerically when its last character is a digit, or a colon or full stop
  that follows a digit; it starts numerically when its first character is a digit, or a
  hyphen that a digit follows. A timestamp pattern that starts before a token can reach
  into the token only over such an end, and one that starts inside a run of digits can
  leave it only over such a start.
\<close>

definition ends_numeric :: "string \<Rightarrow> bool" where
  "ends_numeric s =
     (case rev s of
        [] \<Rightarrow> False
      | c # r \<Rightarrow>
          is_digit c
          \<or> ((c = CHR '':'' \<or> c = CHR ''.'') \<and> (case r of [] \<Rightarrow> False | e # _ \<Rightarrow> is_digit e)))"



section \<open>The in-memory log store (class \<^verbatim>\<open>MemStorage\<close>)\<close>

text \<open>
  \<^verbatim>\<open>InsertLog\<close> is the pair of texts handed to the store; \<^verbatim>\<open>Log\<close> is the same
  object with the \<^verbatim>\<open>id\<close> the store assigned (\<^verbatim>\<open>{ id, ...insertLog }\<close>). Identifiers are
  JavaScript numbers; the model uses \<open>int\<close>, which agrees with them on the integers a
  counter that starts at 1 can reach in practice.
\<close>

record insertLog =
  originalContent :: string
  cleanedContent :: string

record log = insertLog +
  log_id :: int

definition mkLog :: "int \<Rightarrow> insertLog \<Rightarrow> log" where
  "mkLog i ins = \<lparr>originalContent = originalContent ins,
                   cleanedContent = cleanedContent ins, log_id = i\<rparr>"

record memStorage =
  logs :: "int \<rightharpoonup> log"
  currentId :: int

text \<open>The constructor: an empty map and \<^verbatim>\<open>currentId = 1\<close>.\<close>

definition MemStorage_new :: memStorage where
  "MemStorage_new = \<lparr>logs = Map.empty, currentId = 1\<rparr>"

text \<open>\<^verbatim>\<open>createLog\<close>: \<^verbatim>\<open>const id = this.currentId++\<close>, build the log, store it under
  \<open>id\<close>, return it.\<close>

definition createLog :: "memStorage \<Rightarrow> insertLog \<Rightarrow> log \<times> memStorage" where
  "createLog st ins =
     (let i = currentId st;
          l = mkLog i ins
      in (l, st\<lparr>logs := (logs st)(i \<mapsto> l), currentId := i + 1\<rparr>))"

text \<open>\<^verbatim>\<open>getLog\<close>: \<^verbatim>\<open>this.logs.get(id)\<close>; \<open>None\<close> stands for \<^verbatim>\<open>undefined\<close>.\<close>

definition getLog :: "memStorage \<Rightarrow> int \<Rightarrow> log option" where
  "getLog st i = logs st i"

text \<open>A sequence of calls on one store, with the reply of each call.\<close>

datatype call = CreateLog insertLog | GetLog int

datatype reply = Created log | Got "log option"

fun run_calls :: "memStorage \<Rightarrow> call list \<Rightarrow> reply list \<times> memStorage" where
  "run_calls st [] = ([], st)"
| "run_calls st (CreateLog ins # cs) =
     (let (l, st') = createLog st ins;
          (rs, st'') = run_calls st' cs
      in (Created l # rs, st''))"
| "run_calls st (GetLog i # cs) =
     (let r = getLog st i;
          (rs, st') = run_calls st cs
      in (Got r # rs, st'))"

text \<open>The inserted values among a list of calls, in call order.\<close>

fun creates :: "call list \<Rightarrow> insertLog list" where
  "creates [] = []"
| "creates (CreateLog ins # cs) = ins # creates cs"
| "creates (GetLog i # cs) = creates cs"

text \<open>What a call must reply at a point where \<open>prior\<close> lists the values inserted so
  far, with the fields of the log written out.\<close>

definition expected_reply :: "insertLog list \<Rightarrow> call \<Rightarrow> reply" where
  "expected_reply prior c =
     (case c of
        CreateLog ins \<Rightarrow>
          Created \<lparr>originalContent = originalContent ins,
                   cleanedContent = cleanedContent ins,
                   log_id = int (length prior) + 1\<rparr>
      | GetLog i \<Rightarrow>
          Got (if 1 \<le> i \<and> i \<le> int (length prior)
               then Some \<lparr>originalContent = originalContent (prior ! (nat i - 1)),
                          cleanedContent = cleanedContent (prior ! (nat i - 1)),
                          log_id = i\<rparr>
               else None))"

text \<open>The store after the values \<open>prior\<close> have been inserted into a fresh one: the
  value inserted as number \<open>i\<close> is held under the identifier \<open>i\<close>, with that identifier
  and its two texts as its fields.\<close>

definition store_after :: "insertLog list \<Rightarrow> memStorage" where
  "store_after prior =
     \<lparr>logs = (\<lambda>i. if 1 \<le> i \<and> i \<le> int (length prior)
                    then Some \<lparr>originalContent = originalContent (prior ! (nat i - 1)),
                               cleanedContent = cleanedContent (prior ! (nat i - 1)),
                               log_id = i\<rparr>
                    else None),
      currentId = int (length prior) + 1\<rparr>"

section \<open>The route \<^verbatim>\<open>POST /api/clean-log\<close> (server/routes.ts)\<close>

text \<open>
  The request body as the validator sees it: something that is not an object (with the
  name the validator gives its type), or an object whose \<^verbatim>\<open>log\<close> property is absent, a
  string, or a value of another type (again with the name of that type).
\<close>

datatype js_value = Undefined | Str string | Other string

datatype body = NotObject string | Obj js_value

text \<open>
  \<^verbatim>\<open>cleanLogRequestSchema.parse\<close> for the schema
  \<^verbatim>\<open>z.object({ log: z.string().min(1, "Log content is required") })\<close> of shared/schema.ts.
  The validation library is a dependency of the repository; its behaviour is written
  down here as its documentation gives it: an object is required, its \<^verbatim>\<open>log\<close> must be a
  string, and a string shorter than one character fails with the message of the schema.
  The result is the \<^verbatim>\<open>log\<close> string, or the message of the first issue of the error
  thrown (\<^verbatim>\<open>error.errors[0].message\<close>).
\<close>

definition cleanLogRequestSchema_parse :: "body \<Rightarrow> string + string" where
  "cleanLogRequestSchema_parse b =
     (case b of
        NotObject ty \<Rightarrow> Inl (if ty = ''undefined'' then ''Required''
                               else ''Expected object, received '' @ ty)
      | Obj Undefined \<Rightarrow> Inl ''Required''
      | Obj (Other ty) \<Rightarrow> Inl (''Expected string, received '' @ ty)
      | Obj (Str s) \<Rightarrow> if length s \<ge> 1 then Inr s else Inl ''Log content is required'')"

datatype reply_body = ErrorBody string | CleanedBody string

text \<open>
  The handler. The language-model client is a parameter: for the text sent it gives the
  cleaned text, or \<open>None\<close> when the call or the reading of its answer throws (an error
  that is not a validation error). The result is the status and body of the response,
  the store afterwards, and the texts that were sent to the language model.
\<close>

definition clean_log_route ::
  "(string \<Rightarrow> string option) \<Rightarrow> memStorage \<Rightarrow> body
     \<Rightarrow> (nat \<times> reply_body) \<times> memStorage \<times> string list" where
  "clean_log_route llm st b =
     (case cleanLogRequestSchema_parse b of
        Inl message \<Rightarrow> ((400, ErrorBody message), st, [])
      | Inr log \<Rightarrow>
          (case llm log of
             None \<Rightarrow> ((500, ErrorBody ''Error processing log''), st, [log])
           | Some cleanedLog \<Rightarrow>
               let (savedLog, st') =
                     createLog st \<lparr>originalContent = log, cleanedContent = cleanedLog\<rparr>
               in ((200, CleanedBody cleanedLog), st', [log])))"

section \<open>Counting and first occurrences\<close>

lemma occurrences_snoc:
  "occurrences f (xs @ [x]) k = occurrences f xs k + (if f x = k then 1 else 0)"
  by (simp add: occurrences_def)

lemma first_seen_Nil: "first_seen f [] = []"
  by (simp add: first_seen_def)

lemma first_seen_snoc:
  "first_seen f (xs @ [x]) = first_seen f xs @ (if f x \<in> f ` set xs then [] else [x])"
proof -
  define P where "P = (\<lambda>i. f ((xs @ [x]) ! i) \<notin> f ` set (take i (xs @ [x])))"
  have whole: "first_seen f (xs @ [x]) = map ((!) (xs @ [x])) (filter P [0..<Suc (length xs)])"
    unfolding first_seen_def P_def by simp
  have last: "P (length xs) \<longleftrightarrow> f x \<notin> f ` set xs"
    by (simp add: P_def)
  have a: "filter P [0..<length xs]
         = filter (\<lambda>i. f (xs ! i) \<notin> f ` set (take i xs)) [0..<length xs]"
    by (rule filter_cong) (auto simp: P_def nth_append)
  have b: "map ((!) (xs @ [x])) (filter Q [0..<length xs]) = map ((!) xs) (filter Q [0..<length xs])" for Q
    by (rule map_cong) (auto simp: nth_append)
  have "first_seen f (xs @ [x])
        = map ((!) (xs @ [x])) (filter P [0..<length xs]) @ (if P (length xs) then [x] else [])"
    unfolding whole by simp
  then show ?thesis
    unfolding a b last by (simp add: first_seen_def)
qed

lemma map_first_seen: "map f (first_seen f xs) = first_seen id (map f xs)"
  by (induction xs rule: rev_induct) (auto simp: first_seen_Nil first_seen_snoc)

lemma set_first_seen: "f ` set (first_seen f xs) = f ` set xs"
  by (induction xs rule: rev_induct) (auto simp: first_seen_Nil first_seen_snoc)

lemma first_seen_subset: "set (first_seen f xs) \<subseteq> set xs"
  by (induction xs rule: rev_induct) (auto simp: first_seen_Nil first_seen_snoc)

lemma distinct_first_seen: "distinct (map f (first_seen f xs))"
proof (induction xs rule: rev_induct)
  case Nil
  then show ?case by (simp add: first_seen_Nil)
next
  case (snoc x xs)
  have "f x \<notin> f ` set xs \<Longrightarrow> f x \<notin> f ` set (first_seen f xs)"
    by (simp add: set_first_seen)
  with snoc show ?case
    by (auto simp: first_seen_snoc)
qed

lemma counts_of_Nil: "counts_of f [] = Map.empty"
  by (simp add: counts_of_def fun_eq_iff)

lemma counts_of_snoc_seen:
  "counts_of f xs (f x) = Some n \<Longrightarrow> (counts_of f xs)(f x \<mapsto> Suc n) = counts_of f (xs @ [x])"
  by (auto simp: counts_of_def fun_eq_iff occurrences_snoc split: if_splits)

lemma occurrences_zero: "k \<notin> f ` set xs \<Longrightarrow> occurrences f xs k = 0"
  by (auto simp: occurrences_def filter_empty_conv)

lemma counts_of_snoc_new:
  "counts_of f xs (f x) = None \<Longrightarrow> (counts_of f xs)(f x \<mapsto> Suc 0) = counts_of f (xs @ [x])"
  by (auto simp: counts_of_def fun_eq_iff occurrences_snoc occurrences_zero split: if_splits)

lemma counts_of_None: "counts_of f xs k = None \<longleftrightarrow> k \<notin> f ` set xs"
  by (simp add: counts_of_def)

lemma count_blocks_counts:
  "count_blocks bs (counts_of (join ''\<newline>'') prior) (first_seen (join ''\<newline>'') prior)
     = (counts_of (join ''\<newline>'') (prior @ bs), first_seen (join ''\<newline>'') (prior @ bs))"
proof (induction bs arbitrary: prior)
  case Nil
  then show ?case by simp
next
  case (Cons b bs)
  show ?case
  proof (cases "counts_of (join ''\<newline>'') prior (join ''\<newline>'' b)")
    case None
    then have "join ''\<newline>'' b \<notin> join ''\<newline>'' ` set prior"
      by (simp add: counts_of_None)
    with None show ?thesis
      using Cons.IH [of "prior @ [b]"]
      by (simp add: counts_of_snoc_new first_seen_snoc)
  next
    case (Some n)
    then have "join ''\<newline>'' b \<in> join ''\<newline>'' ` set prior"
      by (simp add: counts_of_def split: if_splits)
    with Some show ?thesis
      using Cons.IH [of "prior @ [b]"]
      by (simp add: counts_of_snoc_seen first_seen_snoc)
  qed
qed

lemma split_blocks_acc: "split_blocks ls cur bs = bs @ split_blocks ls cur []"
proof (induction ls arbitrary: cur bs)
  case Nil
  then show ?case by simp
next
  case (Cons l ls)
  show ?case
    using Cons.IH [of "[]" "bs @ [cur]"] Cons.IH [of cur bs] Cons.IH [of "cur @ [l]" bs]
      Cons.IH [of "[]" "[cur]"] Cons.IH [of "[]" bs]
    by simp
qed

lemma trim_Nil: "trim [] = []"
  by (simp add: trim_def)

lemma join_nonempty: "xs \<noteq> [] \<Longrightarrow> hd xs \<noteq> [] \<Longrightarrow> join sep xs \<noteq> []"
  by (cases "(sep, xs)" rule: join.cases) auto

lemma block_text_nonempty:
  "cur \<noteq> [] \<Longrightarrow> \<forall>l \<in> set cur. trim l \<noteq> [] \<Longrightarrow> join sep cur \<noteq> []"
  by (rule join_nonempty) (auto simp: trim_Nil dest!: hd_in_set)

lemma record_block_inv:
  assumes "scan_inv prior st" and "join ''\<newline>'' b \<noteq> []"
  shows "scan_inv (prior @ [join ''\<newline>'' b]) (record_block st b)"
proof (cases "fst st (normalizeErrorMessage (join ''\<newline>'' b))")
  case None
  with assms(1) have new: "counts_of normalizeErrorMessage prior (normalizeErrorMessage (join ''\<newline>'' b)) = None"
    by (metis scan_inv_def option.map_disc_iff)
  then have notin: "normalizeErrorMessage (join ''\<newline>'' b) \<notin> normalizeErrorMessage ` set prior"
    by (simp add: counts_of_None)
  show ?thesis
    using None assms notin counts_of_snoc_new [OF new, symmetric]
    by (cases st) (simp add: scan_inv_def record_block_def first_seen_snoc Let_def)
next
  case (Some e)
  with assms(1) have old: "counts_of normalizeErrorMessage prior (normalizeErrorMessage (join ''\<newline>'' b)) = Some (count e)"
    by (metis scan_inv_def option.simps(9))
  then have isin: "normalizeErrorMessage (join ''\<newline>'' b) \<in> normalizeErrorMessage ` set prior"
    by (simp add: counts_of_def split: if_splits)
  show ?thesis
    using Some assms isin counts_of_snoc_seen [OF old, symmetric]
    by (cases st) (simp add: scan_inv_def record_block_def first_seen_snoc Let_def)
qed

lemma split_blocks_blank:
  "trim l = [] \<Longrightarrow>
     split_blocks (l # ls) cur [] = (if cur = [] then [] else [cur]) @ split_blocks ls [] []"
  using split_blocks_acc [of ls "[]" "[cur]"] by simp

lemma dedup_scan_inv:
  "scan_inv prior st \<Longrightarrow> \<forall>l \<in> set cur. trim l \<noteq> [] \<Longrightarrow> ls \<noteq> [] \<or> cur = [] \<Longrightarrow>
     scan_inv (prior @ map (join ''\<newline>'') (split_blocks ls cur [])) (dedup_scan ls st cur)"
proof (induction ls arbitrary: prior st cur)
  case Nil
  then show ?case by simp
next
  case (Cons l rest)
  show ?case
  proof (cases "trim l = []")
    case True
    define st1 where "st1 = (if cur = [] then st else record_block st cur)"
    define prior1 where "prior1 = prior @ (if cur = [] then [] else [join ''\<newline>'' cur])"
    have "scan_inv prior1 st1"
      using Cons.prems(1,2) record_block_inv [of prior st cur]
      by (auto simp: st1_def prior1_def block_text_nonempty)
    then have "scan_inv prior1 (fst st1, snd st1 @ [[]])"
      by (simp add: scan_inv_def)
    from Cons.IH [OF this, of "[]"] show ?thesis
      using True
      by (cases "cur = []")
         (simp_all add: split_blocks_blank [OF True] st1_def prior1_def Let_def
               del: split_blocks.simps)
  next
    case False
    show ?thesis
    proof (cases "rest = []")
      case True
      have "scan_inv (prior @ [join ''\<newline>'' (cur @ [l])]) (record_block st (cur @ [l]))"
        using Cons.prems(1,2) False
        by (intro record_block_inv block_text_nonempty) auto
      then show ?thesis
        using True False by simp
    next
      case nonlast: False
      from Cons.IH [OF Cons.prems(1), of "cur @ [l]"] show ?thesis
        using False nonlast Cons.prems(2) by simp
    qed
  qed
qed

lemma bump_seen_distinct:
  "distinct (map fst seen) \<Longrightarrow>
     bump_seen k seen =
       map (\<lambda>(k', e). if k' = k then (k', e\<lparr>occurrence_count := occurrence_count e + 1\<rparr>)
                        else (k', e)) seen"
proof (induction seen)
  case Nil
  then show ?case by simp
next
  case (Cons p seen)
  obtain k' e where p: "p = (k', e)" by (cases p)
  show ?case
  proof (cases "k' = k")
    case True
    with Cons.prems p have "k \<notin> fst ` set seen" by auto
    then have "map (\<lambda>(k', e). if k' = k then (k', e\<lparr>occurrence_count := occurrence_count e + 1\<rparr>)
                        else (k', e)) seen = seen"
      by (intro map_idI) (auto simp: rev_image_eqI)
    with True p show ?thesis by simp
  next
    case False
    with Cons p show ?thesis by simp
  qed
qed

lemma fst_seen_after: "map fst (seen_after prior) = map normalizeLine (first_seen normalizeLine prior)"
  by (simp add: seen_after_def comp_def)

lemma map_of_seen_after:
  "map_of (seen_after prior) k \<noteq> None \<longleftrightarrow> k \<in> normalizeLine ` set prior"
proof -
  have "map_of (seen_after prior) k \<noteq> None \<longleftrightarrow> k \<in> set (map fst (seen_after prior))"
    by (simp add: map_of_eq_None_iff)
  also have "\<dots> \<longleftrightarrow> k \<in> normalizeLine ` set (first_seen normalizeLine prior)"
    by (simp only: fst_seen_after set_map)
  finally show ?thesis
    by (simp only: set_first_seen)
qed

lemma seen_after_snoc_old:
  assumes "normalizeLine l \<in> normalizeLine ` set prior"
  shows "bump_seen (normalizeLine l) (seen_after prior) = seen_after (prior @ [l])"
proof -
  have "distinct (map fst (seen_after prior))"
    by (simp only: fst_seen_after distinct_first_seen)
  then show ?thesis
    using assms
    by (simp add: bump_seen_distinct)
       (simp add: seen_after_def first_seen_snoc occurrences_snoc)
qed

lemma seen_after_snoc_new:
  assumes "normalizeLine l \<notin> normalizeLine ` set prior"
  shows "seen_after prior @ [(normalizeLine l, \<lparr>original = l, occurrence_count = 1\<rparr>)]
         = seen_after (prior @ [l])"
proof -
  have "\<forall>x \<in> set (first_seen normalizeLine prior). normalizeLine l \<noteq> normalizeLine x"
    using assms first_seen_subset [of normalizeLine prior] by auto
  then show ?thesis
    using assms
    by (simp add: seen_after_def first_seen_snoc occurrences_snoc occurrences_zero)
qed

lemma scan_lines_seen_after:
  "scan_lines ls (seen_after prior) = seen_after (prior @ ls)"
proof (induction ls arbitrary: prior)
  case Nil
  then show ?case by simp
next
  case (Cons l ls)
  show ?case
  proof (cases "normalizeLine l \<in> normalizeLine ` set prior")
    case True
    then have "map_of (seen_after prior) (normalizeLine l) \<noteq> None"
      by (simp only: map_of_seen_after)
    then show ?thesis
      using Cons.IH [of "prior @ [l]"] seen_after_snoc_old [OF True]
      by (simp add: Let_def)
  next
    case False
    then have "map_of (seen_after prior) (normalizeLine l) = None"
      using map_of_seen_after [of prior "normalizeLine l"] by blast
    then show ?thesis
      using Cons.IH [of "prior @ [l]"] seen_after_snoc_new [OF False]
      by (simp add: Let_def)
  qed
qed

lemma find_snoc:
  "List.find P (xs @ [x]) = (case List.find P xs of None \<Rightarrow> (if P x then Some x else None) | Some y \<Rightarrow> Some y)"
  by (induction xs) auto

lemma find_first_seen:
  "List.find (\<lambda>t. f t = k) (first_seen f xs) = List.find (\<lambda>x. f x = k) xs"
proof (induction xs rule: rev_induct)
  case Nil
  then show ?case by (simp add: first_seen_Nil)
next
  case (snoc x xs)
  show ?case
  proof (cases "f x \<in> f ` set xs")
    case True
    then have "List.find (\<lambda>x. f x = k) xs = None \<Longrightarrow> f x \<noteq> k"
      by (auto simp: find_None_iff)
    with True snoc show ?thesis
      by (auto simp: first_seen_snoc find_snoc split: option.splits)
  next
    case False
    with snoc show ?thesis
      by (simp add: first_seen_snoc find_snoc)
  qed
qed

lemma split_nl_nonempty: "split_nl s \<noteq> []"
  by (induction s) (auto split: list.splits)

lemma scan_inv_init: "scan_inv [] (Map.empty, [])"
  by (simp add: scan_inv_def counts_of_Nil first_seen_Nil)

lemma home_scan_inv:
  "scan_inv (input_blocks log) (dedup_scan (split_nl log) (Map.empty, []) [])"
  using dedup_scan_inv [OF scan_inv_init, of "[]" "split_nl log"]
  by (simp add: input_blocks_def)

lemma home_processed_first_seen:
  "filter (\<lambda>t. t \<noteq> []) (processedLines_of log) = first_seen normalizeErrorMessage (input_blocks log)"
  using home_scan_inv [of log] by (simp add: scan_inv_def processedLines_of_def)

lemma home_output:
  "deduplicateLog_home log =
     join ''\<newline>'' (map (\<lambda>t. if t = [] then [] else annotate_by normalizeErrorMessage (input_blocks log) t)
                      (processedLines_of log))"
proof -
  obtain C P where CP: "dedup_scan (split_nl log) (Map.empty, []) [] = (C, P)"
    by (cases "dedup_scan (split_nl log) (Map.empty, []) []")
  have inv: "scan_inv (input_blocks log) (C, P)"
    using home_scan_inv [of log] by (simp add: CP)
  have "(case C (normalizeErrorMessage t) of Some entry \<Rightarrow> annotate t (count entry) | None \<Rightarrow> t)
        = annotate_by normalizeErrorMessage (input_blocks log) t" if "t \<in> set P" "t \<noteq> []" for t
  proof -
    from that have "t \<in> set (first_seen normalizeErrorMessage (input_blocks log))"
      using inv by (metis (mono_tags, lifting) scan_inv_def snd_conv mem_Collect_eq set_filter)
    then have "normalizeErrorMessage t \<in> normalizeErrorMessage ` set (input_blocks log)"
      using first_seen_subset by fastforce
    moreover have "map_option count (C (normalizeErrorMessage t))
          = counts_of normalizeErrorMessage (input_blocks log) (normalizeErrorMessage t)"
      using inv by (simp add: scan_inv_def)
    ultimately show ?thesis
      by (auto simp: counts_of_def annotate_by_def split: option.splits)
  qed
  then have eq: "map (\<lambda>line. if line = [] then []
                 else case C (normalizeErrorMessage line) of
                        Some entry \<Rightarrow> annotate line (count entry) | None \<Rightarrow> line) P
           = map (\<lambda>t. if t = [] then [] else annotate_by normalizeErrorMessage (input_blocks log) t) P"
    by (intro map_cong) auto
  have out: "deduplicateLog_home log
        = join ''\<newline>'' (map (\<lambda>line. if line = [] then []
                 else case C (normalizeErrorMessage line) of
                        Some entry \<Rightarrow> annotate line (count entry) | None \<Rightarrow> line) P)"
    by (simp add: deduplicateLog_home_def CP)
  have P: "processedLines_of log = P"
    by (simp add: processedLines_of_def CP)
  show ?thesis
    unfolding out eq P by (rule refl)
qed

lemma blocks_count_result:
  "count_blocks (split_blocks (split_nl log) [] []) Map.empty []
     = (counts_of (join ''\<newline>'') (split_blocks (split_nl log) [] []),
        first_seen (join ''\<newline>'') (split_blocks (split_nl log) [] []))"
  using count_blocks_counts [of "split_blocks (split_nl log) [] []" "[]"]
  by (simp add: counts_of_Nil first_seen_Nil)

lemma blocks_unique_first_seen:
  "map (join ''\<newline>'') (uniqueBlocks_of log) = first_seen id (input_blocks log)"
  by (simp add: uniqueBlocks_of_def blocks_count_result map_first_seen input_blocks_def)

lemma occurrences_map: "occurrences g (map f xs) k = occurrences (g \<circ> f) xs k"
  by (simp add: occurrences_def filter_map comp_def)

lemma blocks_output:
  "deduplicateLog_blocks log =
     join ''\<newline>\<newline>'' (map (annotate_by id (input_blocks log)) (map (join ''\<newline>'') (uniqueBlocks_of log)))"
proof -
  let ?bs = "split_blocks (split_nl log) [] []"
  have "(case counts_of (join ''\<newline>'') ?bs (join ''\<newline>'' b) of
           Some n \<Rightarrow> annotate (join ''\<newline>'' b) n | None \<Rightarrow> join ''\<newline>'' b)
        = annotate_by id (input_blocks log) (join ''\<newline>'' b)"
    if "b \<in> set (first_seen (join ''\<newline>'') ?bs)" for b
  proof -
    from that have "b \<in> set ?bs" using first_seen_subset by fastforce
    then show ?thesis
      by (simp add: counts_of_def annotate_by_def input_blocks_def occurrences_map comp_def)
  qed
  then show ?thesis
    by (simp add: deduplicateLog_blocks_def blocks_count_result uniqueBlocks_of_def comp_def Let_def
             cong: map_cong)
qed

lemma seen_after_Nil: "seen_after [] = []"
  by (simp add: seen_after_def first_seen_Nil)

lemma lines_seen: "seen_of log = seen_after (trimmed_lines log)"
  using scan_lines_seen_after [of "trimmed_lines log" "[]"]
  by (simp add: seen_of_def trimmed_lines_def seen_after_Nil)

lemma lines_output:
  "deduplicateLog_lines log =
     join ''\<newline>'' (map (annotate_by normalizeLine (trimmed_lines log))
                      (map (original \<circ> snd) (seen_of log)))"
  using lines_seen [of log]
  by (simp add: deduplicateLog_lines_def seen_of_def seen_after_def comp_def
        annotate_by_def [abs_def])

lemma lines_originals: "map (original \<circ> snd) (seen_of log) = first_seen normalizeLine (trimmed_lines log)"
  by (simp add: lines_seen seen_after_def comp_def)

lemma find_filter_map:
  "List.find P (filter Q (map f xs)) = map_option f (List.find (\<lambda>x. Q (f x) \<and> P (f x)) xs)"
  by (induction xs) simp_all

lemma occurrences_trimmed_lines:
  "occurrences normalizeLine (trimmed_lines log) k =
     length (filter (\<lambda>l. trim l \<noteq> [] \<and> normalizeLine (trim l) = k) (split_nl log))"
proof -
  have "length (filter P (filter Q (map f xs))) = length (filter (\<lambda>x. Q (f x) \<and> P (f x)) xs)"
    for P Q :: "string \<Rightarrow> bool" and f :: "string \<Rightarrow> string" and xs
    by (induction xs) simp_all
  then show ?thesis
    by (simp add: occurrences_def trimmed_lines_def conj_commute)
qed

section \<open>Counts, representatives and order\<close>

text \<open>
  C1. In the exact-block variant and in the variant of the current page, every emitted
  text carries the annotation for the number of blocks of the input that have its
  fingerprint (its exact text, respectively its \<^verbatim>\<open>normalizeErrorMessage\<close>), every
  fingerprint of the input has an emitted text, and the annotation is \<^verbatim>\<open> [x<count>]\<close>
  when that number exceeds 1 and nothing otherwise.
\<close>

theorem count_correct:
  "deduplicateLog_blocks log =
     join ''\<newline>\<newline>'' (map (annotate_by id (input_blocks log))
                              (map (join ''\<newline>'') (uniqueBlocks_of log)))
   \<and> set (map (join ''\<newline>'') (uniqueBlocks_of log)) = set (input_blocks log)
   \<and> deduplicateLog_home log =
     join ''\<newline>'' (map (\<lambda>t. if t = [] then []
                               else annotate_by normalizeErrorMessage (input_blocks log) t)
                      (processedLines_of log))
   \<and> normalizeErrorMessage ` set (filter (\<lambda>t. t \<noteq> []) (processedLines_of log))
       = normalizeErrorMessage ` set (input_blocks log)
   \<and> annotate_by f bs t =
       (if occurrences f bs (f t) > 1
        then t @ '' [x'' @ dec (occurrences f bs (f t)) @ '']'' else t)"
proof -
  have "set (map (join ''\<newline>'') (uniqueBlocks_of log)) = set (input_blocks log)"
    using set_first_seen [of id "input_blocks log"]
    by (simp add: blocks_unique_first_seen)
  moreover have "normalizeErrorMessage ` set (filter (\<lambda>t. t \<noteq> []) (processedLines_of log))
       = normalizeErrorMessage ` set (input_blocks log)"
    by (simp only: home_processed_first_seen set_first_seen)
  moreover have "annotate_by f bs t =
       (if occurrences f bs (f t) > 1
        then t @ '' [x'' @ dec (occurrences f bs (f t)) @ '']'' else t)"
    by (simp add: annotate_by_def annotate_def)
  ultimately show ?thesis
    using blocks_output [of log] home_output [of log] by blast
qed

theorem count_correct_witness:
  "deduplicateLog_home ''E 1\<newline>\<newline>E 2\<newline>\<newline>F'' = ''E 1 [x2]\<newline>\<newline>\<newline>F''
   \<and> occurrences normalizeErrorMessage (input_blocks ''E 1\<newline>\<newline>E 2\<newline>\<newline>F'')
        (normalizeErrorMessage ''E 1'') = 2"
proof -
  have p: "processedLines_of ''E 1\<newline>\<newline>E 2\<newline>\<newline>F'' = [''E 1'', [], [], ''F'']"
    by code_simp
  have b: "input_blocks ''E 1\<newline>\<newline>E 2\<newline>\<newline>F'' = [''E 1'', ''E 2'', ''F'']"
    by code_simp
  have n: "normalizeErrorMessage ''E 1'' = ''E <num>''" "normalizeErrorMessage ''E 2'' = ''E <num>''"
     "normalizeErrorMessage ''F'' = ''F''"
    by code_simp+
  have d: "dec (Suc (Suc 0)) = ''2''" by (simp add: dec.simps)
  from count_correct [of "''E 1\<newline>\<newline>E 2\<newline>\<newline>F''"]
  have "deduplicateLog_home ''E 1\<newline>\<newline>E 2\<newline>\<newline>F'' =
     join ''\<newline>'' (map (\<lambda>t. if t = [] then []
                               else annotate_by normalizeErrorMessage (input_blocks ''E 1\<newline>\<newline>E 2\<newline>\<newline>F'') t)
                      (processedLines_of ''E 1\<newline>\<newline>E 2\<newline>\<newline>F''))"
    by blast
  then show ?thesis
    by (simp add: p b n d annotate_by_def annotate_def occurrences_def)
qed

text \<open>
  C2, as stated, fails for the line-based variant: it trims every line before it stores
  it, so the text it emits is not the first text of the input verbatim. The first line
  of the input below is \<^verbatim>\<open>    at foo()\<close> with four leading spaces; trimmed, it is the
  second line, and the one text emitted for the two is \<^verbatim>\<open>at foo()\<close>, without the spaces.
\<close>

theorem representative_not_verbatim_counterexample:
  "split_nl ''    at foo()\<newline>at foo()'' = [''    at foo()'', ''at foo()'']
   \<and> trim ''    at foo()'' = ''at foo()''
   \<and> deduplicateLog_lines ''    at foo()\<newline>at foo()'' = ''at foo() [x2]''"
  by code_simp

text \<open>
  C2, amended. In the variant of the current page, the text emitted for a fingerprint \<open>k\<close>
  is the first block of the input with that fingerprint, unchanged, and later blocks with
  the same fingerprint only raise the count. In the line-based variant, where the
  fingerprint of a line is \<^verbatim>\<open>normalizeLine\<close> of the trimmed line, the text emitted for \<open>k\<close>
  is the trimmed text of the first line of the input that is not blank and has that
  fingerprint, and its count is the number of such lines.
\<close>

theorem representative_is_first:
  "List.find (\<lambda>t. normalizeErrorMessage t = k) (filter (\<lambda>t. t \<noteq> []) (processedLines_of log))
     = List.find (\<lambda>b. normalizeErrorMessage b = k) (input_blocks log)
   \<and> deduplicateLog_home log =
     join ''\<newline>'' (map (\<lambda>t. if t = [] then []
                               else annotate_by normalizeErrorMessage (input_blocks log) t)
                      (processedLines_of log))
   \<and> List.find (\<lambda>t. normalizeLine t = k) (map (original \<circ> snd) (seen_of log))
     = map_option trim
         (List.find (\<lambda>l. trim l \<noteq> [] \<and> normalizeLine (trim l) = k) (split_nl log))
   \<and> deduplicateLog_lines log =
     join ''\<newline>''
       (map (\<lambda>t. annotate t
                   (length (filter (\<lambda>l. trim l \<noteq> [] \<and> normalizeLine (trim l) = normalizeLine t)
                              (split_nl log))))
            (map (original \<circ> snd) (seen_of log)))"
proof -
  have "List.find (\<lambda>t. normalizeLine t = k) (map (original \<circ> snd) (seen_of log))
     = map_option trim
         (List.find (\<lambda>l. trim l \<noteq> [] \<and> normalizeLine (trim l) = k) (split_nl log))"
    by (simp only: lines_originals find_first_seen trimmed_lines_def find_filter_map length_greater_0_conv)
  moreover have "deduplicateLog_lines log =
     join ''\<newline>''
       (map (\<lambda>t. annotate t
                   (length (filter (\<lambda>l. trim l \<noteq> [] \<and> normalizeLine (trim l) = normalizeLine t)
                              (split_nl log))))
            (map (original \<circ> snd) (seen_of log)))"
    by (simp only: lines_output annotate_by_def [abs_def] occurrences_trimmed_lines)
  moreover have "List.find (\<lambda>t. normalizeErrorMessage t = k) (filter (\<lambda>t. t \<noteq> []) (processedLines_of log))
     = List.find (\<lambda>b. normalizeErrorMessage b = k) (input_blocks log)"
    by (simp only: home_processed_first_seen find_first_seen)
  ultimately show ?thesis
    using home_output [of log] by blast
qed

theorem representative_is_first_witness:
  "List.find (\<lambda>t. normalizeLine t = ''E <NUM>'')
      (map (original \<circ> snd) (seen_of ''  E 1000\<newline>F\<newline>E 2000'')) = Some ''E 1000''"
proof -
  have "List.find (\<lambda>l. trim l \<noteq> [] \<and> normalizeLine (trim l) = ''E <NUM>'')
          (split_nl ''  E 1000\<newline>F\<newline>E 2000'') = Some ''  E 1000''"
    by code_simp
  moreover have "trim ''  E 1000'' = ''E 1000''"
    by code_simp
  ultimately show ?thesis
    using representative_is_first [of "''E <NUM>''" "''  E 1000\<newline>F\<newline>E 2000''"]
    by simp
qed

text \<open>
  C3. The emitted texts are the first occurrences of the fingerprints, in the order in
  which they occur in the input, in the exact-block variant and in the variant of the
  current page (whose empty entries stand for blank lines).
\<close>

theorem first_seen_order:
  "map (join ''\<newline>'') (uniqueBlocks_of log) = first_seen id (input_blocks log)
   \<and> deduplicateLog_blocks log =
     join ''\<newline>\<newline>'' (map (annotate_by id (input_blocks log)) (first_seen id (input_blocks log)))
   \<and> filter (\<lambda>t. t \<noteq> []) (processedLines_of log)
       = first_seen normalizeErrorMessage (input_blocks log)
   \<and> deduplicateLog_home log =
     join ''\<newline>'' (map (\<lambda>t. if t = [] then []
                               else annotate_by normalizeErrorMessage (input_blocks log) t)
                      (processedLines_of log))"
  using blocks_output [of log] home_output [of log]
  by (simp only: blocks_unique_first_seen home_processed_first_seen simp_thms)

theorem first_seen_order_witness:
  "deduplicateLog_blocks ''B\<newline>\<newline>A\<newline>\<newline>B\<newline>\<newline>B\<newline>\<newline>A\<newline>\<newline>C'' = ''B [x3]\<newline>\<newline>A [x2]\<newline>\<newline>C''"
proof -
  have b: "input_blocks ''B\<newline>\<newline>A\<newline>\<newline>B\<newline>\<newline>B\<newline>\<newline>A\<newline>\<newline>C'' = [''B'', ''A'', ''B'', ''B'', ''A'', ''C'']"
    by code_simp
  have f: "first_seen id [''B'', ''A'', ''B'', ''B'', ''A'', ''C''] = [''B'', ''A'', ''C'']"
    by code_simp
  have d: "dec (Suc (Suc 0)) = ''2''" "dec (Suc (Suc (Suc 0))) = ''3''"
    by (simp_all add: dec.simps)
  from first_seen_order [of "''B\<newline>\<newline>A\<newline>\<newline>B\<newline>\<newline>B\<newline>\<newline>A\<newline>\<newline>C''"]
  show ?thesis
    by (simp add: b f d annotate_by_def annotate_def occurrences_def)
qed

section \<open>Properties of the store\<close>

lemma store_after_Nil: "store_after [] = MemStorage_new"
  by (simp add: store_after_def MemStorage_new_def fun_eq_iff)

lemma createLog_store_after:
  "createLog (store_after prior) ins =
     (\<lparr>originalContent = originalContent ins, cleanedContent = cleanedContent ins,
       log_id = int (length prior) + 1\<rparr>,
      store_after (prior @ [ins]))"
proof -
  let ?l = "\<lparr>originalContent = originalContent ins, cleanedContent = cleanedContent ins,
             log_id = int (length prior) + 1\<rparr>"
  have "(logs (store_after prior))(int (length prior) + 1 \<mapsto> ?l)
        = logs (store_after (prior @ [ins]))"
  proof
    fix i :: int
    show "((logs (store_after prior))(int (length prior) + 1 \<mapsto> ?l)) i
          = logs (store_after (prior @ [ins])) i"
    proof (cases "i = int (length prior) + 1")
      case True
      then have "nat i - 1 = length prior" by simp
      with True show ?thesis by (simp add: store_after_def)
    next
      case False
      then show ?thesis
        by (auto simp: store_after_def nth_append)
    qed
  qed
  then show ?thesis
    by (simp add: createLog_def mkLog_def Let_def store_after_def)
qed

lemma expected_reply_Create:
  "expected_reply prior (CreateLog ins) =
     Created \<lparr>originalContent = originalContent ins, cleanedContent = cleanedContent ins,
              log_id = int (length prior) + 1\<rparr>"
  by (simp add: expected_reply_def)

lemma getLog_store_after:
  "Got (getLog (store_after prior) i) = expected_reply prior (GetLog i)"
  by (simp add: getLog_def store_after_def expected_reply_def)

lemma run_calls_store_after:
  "run_calls (store_after prior) cs =
     (map (\<lambda>p. expected_reply (prior @ creates (take p cs)) (cs ! p)) [0..<length cs],
      store_after (prior @ creates cs))"
proof (induction cs arbitrary: prior)
  case Nil
  then show ?case by simp
next
  case (Cons c cs)
  have shift: "map f [0..<Suc n] = f 0 # map (\<lambda>p. f (Suc p)) [0..<n]" for f :: "nat \<Rightarrow> reply" and n
    by (simp add: upt_conv_Cons map_Suc_upt [symmetric] del: upt_Suc)
  show ?case
  proof (cases c)
    case (CreateLog ins)
    then show ?thesis
      using Cons.IH [of "prior @ [ins]"]
      by (simp add: createLog_store_after shift expected_reply_Create del: upt_Suc)
  next
    case (GetLog i)
    then show ?thesis
      using Cons.IH [of "prior"]
      by (simp add: getLog_store_after shift del: upt_Suc)
  qed
qed

text \<open>
  C10. Take a fresh store and any sequence of \<^verbatim>\<open>createLog\<close> and \<^verbatim>\<open>getLog\<close> calls on it,
  and let \<open>n\<close> be the number of \<^verbatim>\<open>createLog\<close> calls before position \<open>p\<close>. If the call at
  \<open>p\<close> is a \<^verbatim>\<open>createLog\<close>, it returns the log whose \<^verbatim>\<open>id\<close> is \<open>n + 1\<close> and whose two
  texts are those of the inserted pair: the n-th \<^verbatim>\<open>createLog\<close> returns \<open>id = n\<close>. If it is
  a \<^verbatim>\<open>getLog\<close> of an id \<open>i\<close> with \<open>1 \<le> i \<le> n\<close>, it returns the log whose \<^verbatim>\<open>id\<close> is \<open>i\<close>
  and whose two texts are those of the pair inserted by the i-th \<^verbatim>\<open>createLog\<close>; for any
  other id it returns \<^verbatim>\<open>undefined\<close>.
\<close>

theorem memStorage_ids_sequential:
  "p < length cs \<Longrightarrow>
     fst (run_calls MemStorage_new cs) ! p =
       (case cs ! p of
          CreateLog ins \<Rightarrow>
            Created \<lparr>originalContent = originalContent ins,
                     cleanedContent = cleanedContent ins,
                     log_id = int (length (creates (take p cs))) + 1\<rparr>
        | GetLog i \<Rightarrow>
            Got (if 1 \<le> i \<and> i \<le> int (length (creates (take p cs)))
                 then Some \<lparr>originalContent = originalContent (creates (take p cs) ! (nat i - 1)),
                            cleanedContent = cleanedContent (creates (take p cs) ! (nat i - 1)),
                            log_id = i\<rparr>
                 else None))"
proof -
  assume "p < length cs"
  then have "fst (run_calls MemStorage_new cs) ! p = expected_reply (creates (take p cs)) (cs ! p)"
    using run_calls_store_after [of "[]" cs] by (simp add: store_after_Nil)
  then show ?thesis
    unfolding expected_reply_def .
qed

theorem memStorage_ids_sequential_witness:
  "fst (run_calls MemStorage_new
      [CreateLog \<lparr>originalContent = ''a'', cleanedContent = ''b''\<rparr>,
       GetLog 2,
       CreateLog \<lparr>originalContent = ''c'', cleanedContent = ''d''\<rparr>,
       GetLog 1, GetLog 2, GetLog 0]) ! 4
   = Got (Some \<lparr>originalContent = ''c'', cleanedContent = ''d'', log_id = 2\<rparr>)"
  using memStorage_ids_sequential
    [of 4 "[CreateLog \<lparr>originalContent = ''a'', cleanedContent = ''b''\<rparr>,
       GetLog 2,
       CreateLog \<lparr>originalContent = ''c'', cleanedContent = ''d''\<rparr>,
       GetLog 1, GetLog 2, GetLog 0]"]
  by simp

section \<open>The route rejects an empty submission\<close>

text \<open>
  C9. A body without \<^verbatim>\<open>log\<close>, or with the empty string as \<^verbatim>\<open>log\<close>, is answered with
  status 400 and the validation message; the language model is not called and the store
  is unchanged. When the validation passes and the language-model call fails, the answer
  is status 500, and the store is unchanged as well.
\<close>

theorem empty_log_rejected:
  "clean_log_route llm st (Obj Undefined) = ((400, ErrorBody ''Required''), st, [])
   \<and> clean_log_route llm st (Obj (Str [])) = ((400, ErrorBody ''Log content is required''), st, [])
   \<and> (log \<noteq> [] \<and> llm log = None \<longrightarrow>
        clean_log_route llm st (Obj (Str log)) = ((500, ErrorBody ''Error processing log''), st, [log]))"
  by (cases log) (simp_all add: clean_log_route_def cleanLogRequestSchema_parse_def)

theorem empty_log_rejected_witness:
  "clean_log_route (\<lambda>s. None) MemStorage_new (Obj (Str ''boom''))
     = ((500, ErrorBody ''Error processing log''), MemStorage_new, [''boom''])"
  using empty_log_rejected [of "\<lambda>s. None" MemStorage_new "''boom''"] by simp

section \<open>The timestamp scenario\<close>

text \<open>
  C6, as stated, fails for the variant of the current page: its result for the two
  timestamped blocks is not the bare annotated block.
\<close>

theorem timestamp_scenario_counterexample:
  "deduplicateLog_home
     ''2024-01-01 10:00:00 Connection failed\<newline>\<newline>2024-01-01 10:00:05 Connection failed''
   \<noteq> ''2024-01-01 10:00:00 Connection failed [x2]''"
  by code_simp

text \<open>
  C6, amended. For the two blocks \<^verbatim>\<open>2024-01-01 10:00:00 Connection failed\<close> and
  \<^verbatim>\<open>2024-01-01 10:00:05 Connection failed\<close> separated by a blank line: both have the
  fingerprint \<^verbatim>\<open><TIME> Connection failed\<close> under \<^verbatim>\<open>normalizeLine\<close> and equal fingerprints
  under \<^verbatim>\<open>normalizeErrorMessage\<close>; the line-based variant returns exactly
  \<^verbatim>\<open>2024-01-01 10:00:00 Connection failed [x2]\<close>; the variant of the current page returns
  that text followed by a newline, the blank line of the input.
\<close>

theorem timestamp_scenario:
  "normalizeLine ''2024-01-01 10:00:00 Connection failed'' = ''<TIME> Connection failed''
   \<and> normalizeLine ''2024-01-01 10:00:05 Connection failed'' = ''<TIME> Connection failed''
   \<and> normalizeErrorMessage ''2024-01-01 10:00:00 Connection failed''
       = normalizeErrorMessage ''2024-01-01 10:00:05 Connection failed''
   \<and> deduplicateLog_lines
        ''2024-01-01 10:00:00 Connection failed\<newline>\<newline>2024-01-01 10:00:05 Connection failed''
       = ''2024-01-01 10:00:00 Connection failed [x2]''
   \<and> deduplicateLog_home
        ''2024-01-01 10:00:00 Connection failed\<newline>\<newline>2024-01-01 10:00:05 Connection failed''
       = ''2024-01-01 10:00:00 Connection failed [x2]\<newline>''"
  by code_simp

section \<open>Inputs of blank lines\<close>

lemma split_blocks_all_blank:
  "\<forall>l \<in> set ls. trim l = [] \<Longrightarrow> split_blocks ls [] [] = []"
  by (induction ls) auto

lemma dedup_scan_all_blank:
  "\<forall>l \<in> set ls. trim l = [] \<Longrightarrow>
     dedup_scan ls (C, P) [] = (C, P @ replicate (length ls) [])"
proof (induction ls arbitrary: P)
  case Nil
  then show ?case by simp
next
  case (Cons l ls)
  then show ?case
    by (simp add: replicate_app_Cons_same)
qed

lemma join_replicate_empty:
  "join sep (replicate n []) = concat (replicate (n - 1) sep)"
proof (induction n)
  case 0
  then show ?case by simp
next
  case (Suc n)
  then show ?case by (cases n) auto
qed

text \<open>
  C8, as stated, fails for the variant of the current page: the input of one newline has
  two lines, both blank, and the result is not the empty string.
\<close>

theorem blank_input_counterexample:
  "map trim (split_nl ''\<newline>'') = [[], []] \<and> deduplicateLog_home ''\<newline>'' = ''\<newline>''"
  by code_simp

text \<open>
  C8, amended. Both functions return a string for every input, and the empty string for
  the empty input. For an input all of whose lines are blank the exact-block variant
  returns the empty string, and the variant of the current page returns one newline for
  each line but the last.
\<close>

theorem blank_input:
  "deduplicateLog_blocks [] = [] \<and> deduplicateLog_home [] = []
   \<and> ((\<forall>l \<in> set (split_nl log). trim l = []) \<longrightarrow>
        deduplicateLog_blocks log = []
        \<and> deduplicateLog_home log = replicate (length (split_nl log) - 1) CHR 0x0A)"
proof -
  have "deduplicateLog_blocks log = []
        \<and> deduplicateLog_home log = replicate (length (split_nl log) - 1) CHR 0x0A"
    if blank: "\<forall>l \<in> set (split_nl log). trim l = []"
  proof
    show "deduplicateLog_blocks log = []"
      by (simp add: deduplicateLog_blocks_def split_blocks_all_blank [OF blank])
    have "concat (replicate n ''\<newline>'') = replicate n CHR 0x0A" for n
      by (induction n) auto
    then show "deduplicateLog_home log = replicate (length (split_nl log) - 1) CHR 0x0A"
      by (simp add: deduplicateLog_home_def dedup_scan_all_blank [OF blank, of Map.empty "[]"]
            join_replicate_empty)
  qed
  moreover have "deduplicateLog_blocks [] = []" "deduplicateLog_home [] = []"
    by code_simp+
  ultimately show ?thesis by blast
qed

theorem blank_input_witness:
  "deduplicateLog_blocks '' \<newline>\<newline>  '' = [] \<and> deduplicateLog_home '' \<newline>\<newline>  '' = ''\<newline>\<newline>''"
proof -
  have "\<forall>l \<in> set (split_nl '' \<newline>\<newline>  ''). trim l = []"
    by code_simp
  moreover have "length (split_nl '' \<newline>\<newline>  '') = 3"
    by code_simp
  ultimately show ?thesis
    using blank_input [of "'' \<newline>\<newline>  ''"] by (simp add: numeral_3_eq_3)
qed

section \<open>Lines, blocks and entries\<close>

lemma dropWhile_all_iff: "(\<forall>x \<in> set (dropWhile P xs). P x) \<longleftrightarrow> (\<forall>x \<in> set xs. P x)"
proof
  assume a: "\<forall>x \<in> set (dropWhile P xs). P x"
  have "dropWhile P xs = []"
  proof (rule ccontr)
    assume ne: "dropWhile P xs \<noteq> []"
    then have "\<not> P (hd (dropWhile P xs))" by (rule hd_dropWhile)
    moreover have "hd (dropWhile P xs) \<in> set (dropWhile P xs)" using ne by simp
    ultimately show False using a by blast
  qed
  then show "\<forall>x \<in> set xs. P x" by simp
next
  assume "\<forall>x \<in> set xs. P x"
  then show "\<forall>x \<in> set (dropWhile P xs). P x" by (auto dest: set_dropWhileD)
qed

lemma trim_empty_iff: "trim s = [] \<longleftrightarrow> (\<forall>c \<in> set s. is_ws c)"
  by (simp add: trim_def dropWhile_all_iff)

lemma trim_append_nonblank: "trim a \<noteq> [] \<Longrightarrow> trim (a @ b) \<noteq> []"
  by (auto simp: trim_empty_iff)

lemma split_nl_lines_nl_free: "l \<in> set (split_nl s) \<Longrightarrow> CHR 0x0A \<notin> set l"
proof (induction s arbitrary: l)
  case Nil
  then show ?case by simp
next
  case (Cons c s)
  then show ?case
    by (cases "split_nl s") (auto split: if_splits)
qed

lemma split_nl_nl_free: "CHR 0x0A \<notin> set s \<Longrightarrow> split_nl s = [s]"
  by (induction s) auto

lemma split_nl_append_nl: "split_nl (a @ CHR 0x0A # b) = split_nl a @ split_nl b"
proof (induction a)
  case Nil
  then show ?case by simp
next
  case (Cons c a)
  then show ?case
    by (cases "split_nl a") (auto simp: split_nl_nonempty)
qed

lemma split_nl_append_free:
  "CHR 0x0A \<notin> set b \<Longrightarrow> split_nl (a @ b) = butlast (split_nl a) @ [last (split_nl a) @ b]"
proof (induction a)
  case Nil
  then show ?case by (simp add: split_nl_nl_free)
next
  case (Cons c a)
  then show ?case
    by (cases "split_nl a") (auto simp: split_nl_nonempty split_nl_append_nl split: list.splits)
qed

lemma join_Cons: "xs \<noteq> [] \<Longrightarrow> join sep (x # xs) = x @ sep @ join sep xs"
  by (cases xs) auto

lemma join_Cons_Cons: "join sep ((c # a) # xs) = c # join sep (a # xs)"
  by (cases xs) auto

lemma join_split_nl: "join ''\<newline>'' (split_nl s) = s"
proof (induction s)
  case Nil
  then show ?case by simp
next
  case (Cons c s)
  then show ?case
    by (cases "split_nl s") (auto simp: split_nl_nonempty join_Cons join_Cons_Cons)
qed

lemma split_nl_join:
  "xs \<noteq> [] \<Longrightarrow> split_nl (join ''\<newline>'' xs) = concat (map split_nl xs)"
proof (induction xs)
  case Nil
  then show ?case by simp
next
  case (Cons x xs)
  show ?case
  proof (cases "xs = []")
    case True
    then show ?thesis by simp
  next
    case False
    with Cons show ?thesis
      by (simp add: join_Cons split_nl_append_nl)
  qed
qed

lemma split_nl_join_lines:
  "ls \<noteq> [] \<Longrightarrow> \<forall>l \<in> set ls. CHR 0x0A \<notin> set l \<Longrightarrow> split_nl (join ''\<newline>'' ls) = ls"
proof -
  assume ne: "ls \<noteq> []" and free: "\<forall>l \<in> set ls. CHR 0x0A \<notin> set l"
  have "concat (map split_nl ls) = concat (map (\<lambda>l. [l]) ls)"
    using free by (intro arg_cong [where f = concat] map_cong) (auto simp: split_nl_nl_free)
  then show ?thesis
    using ne by (simp add: split_nl_join)
qed

lemma dec_digits: "set (dec n) \<subseteq> set ''0123456789''"
proof (induction n rule: dec.induct)
  case (1 n)
  have d: "''0123456789'' ! k \<in> set ''0123456789''" if "k < 10" for k
    using that by (intro nth_mem) simp
  show ?case
  proof (cases "n < 10")
    case True
    then show ?thesis
      using d [of n] by (subst dec.simps) simp
  next
    case False
    then show ?thesis
      using 1 d [of "n mod 10"] by (subst dec.simps) simp
  qed
qed

lemma annotate_suffix:
  "\<exists>suffix. annotate t n = t @ suffix \<and> CHR 0x0A \<notin> set suffix"
proof (cases "n > 1")
  case True
  have "CHR 0x0A \<notin> set (dec n)"
    using dec_digits [of n] by auto
  with True show ?thesis
    by (simp add: annotate_def)
next
  case False
  then show ?thesis by (simp add: annotate_def)
qed

lemma block_text_append:
  assumes "block_text t" and "CHR 0x0A \<notin> set suffix"
  shows "block_text (t @ suffix)"
proof -
  have "last (split_nl t) \<in> set (split_nl t)"
    by (simp add: split_nl_nonempty)
  with assms(1) have "trim (last (split_nl t) @ suffix) \<noteq> []"
    by (simp add: block_text_def trim_append_nonblank)
  moreover have "\<forall>l \<in> set (butlast (split_nl t)). trim l \<noteq> []"
    using assms(1) by (auto simp: block_text_def dest: in_set_butlastD)
  ultimately show ?thesis
    by (simp add: block_text_def split_nl_append_free [OF assms(2)])
qed

lemma block_text_annotate: "block_text t \<Longrightarrow> block_text (annotate t n)"
  using annotate_suffix [of t n] block_text_append by metis

lemma block_text_nonempty': "block_text t \<Longrightarrow> t \<noteq> []"
  by (auto simp: block_text_def trim_Nil)

lemma good_lines_Nil: "good_lines []"
  by (simp add: good_lines_def)

lemma good_lines_snoc:
  "good_lines (cur @ [l]) \<longleftrightarrow> good_lines cur \<and> trim l \<noteq> [] \<and> CHR 0x0A \<notin> set l"
  by (auto simp: good_lines_def)

lemma split_blocks_good:
  assumes "b \<in> set (split_blocks ls cur [])"
    and "\<forall>l \<in> set ls. CHR 0x0A \<notin> set l"
    and "good_lines cur"
  shows "b \<noteq> [] \<and> good_lines b"
  using assms
proof (induction ls arbitrary: cur)
  case Nil
  then show ?case by (cases "cur = []") simp_all
next
  case (Cons l ls)
  from Cons.prems(2) have free: "\<forall>l \<in> set ls. CHR 0x0A \<notin> set l" and l: "CHR 0x0A \<notin> set l"
    by simp_all
  show ?case
  proof (cases "trim l = []")
    case True
    from Cons.prems(1) have "b \<in> set ((if cur = [] then [] else [cur]) @ split_blocks ls [] [])"
      by (simp only: split_blocks_blank [OF True])
    then consider "b = cur" "cur \<noteq> []" | "b \<in> set (split_blocks ls [] [])"
      by (cases "cur = []") auto
    then show ?thesis
    proof cases
      case 1
      with Cons.prems(3) show ?thesis by simp
    next
      case 2
      then show ?thesis
        by (rule Cons.IH) (rule free, rule good_lines_Nil)
    qed
  next
    case False
    with Cons.prems(1) have "b \<in> set (split_blocks ls (cur @ [l]) [])" by simp
    moreover have "good_lines (cur @ [l])"
      using Cons.prems(3) False l by (simp add: good_lines_snoc)
    ultimately show ?thesis
      using free by (intro Cons.IH)
  qed
qed

lemma input_blocks_block_text: "t \<in> set (input_blocks log) \<Longrightarrow> block_text t"
proof -
  assume "t \<in> set (input_blocks log)"
  then obtain b where b: "b \<in> set (split_blocks (split_nl log) [] [])" and t: "t = join ''\<newline>'' b"
    by (auto simp: input_blocks_def)
  have "\<forall>l \<in> set (split_nl log). CHR 0x0A \<notin> set l"
    by (auto dest: split_nl_lines_nl_free)
  with b have "b \<noteq> [] \<and> good_lines b"
    by (rule split_blocks_good) (rule good_lines_Nil)
  then have good: "b \<noteq> []" "\<forall>l \<in> set b. trim l \<noteq> []" "\<forall>l \<in> set b. CHR 0x0A \<notin> set l"
    by (auto simp: good_lines_def)
  then show ?thesis
    by (simp add: block_text_def t split_nl_join_lines)
qed

lemma split_blocks_nonblank_prefix:
  "\<forall>l \<in> set b. trim l \<noteq> [] \<Longrightarrow> split_blocks (b @ rest) cur bs = split_blocks rest (cur @ b) bs"
  by (induction b arbitrary: cur) auto

lemma blocks_of_entries:
  "wf_entries Q \<Longrightarrow>
     map (join ''\<newline>'') (split_blocks (concat (map split_nl Q)) [] []) = filter (\<lambda>t. t \<noteq> []) Q"
proof (induction Q rule: wf_entries.induct)
  case 1
  then show ?case by simp
next
  case (2 t)
  show ?case
  proof (cases "t = []")
    case True
    then show ?thesis by (simp add: trim_Nil)
  next
    case False
    with 2 have bt: "block_text t" by simp
    then have "split_blocks (split_nl t @ []) [] [] = split_blocks [] ([] @ split_nl t) []"
      by (intro split_blocks_nonblank_prefix) (simp add: block_text_def)
    then show ?thesis
      using False by (simp add: split_nl_nonempty join_split_nl)
  qed
next
  case (3 t u r)
  then have IH: "map (join ''\<newline>'') (split_blocks (concat (map split_nl (u # r))) [] [])
                 = filter (\<lambda>t. t \<noteq> []) (u # r)"
    by simp
  show ?case
  proof (cases "t = []")
    case True
    then show ?thesis using IH by (simp add: trim_Nil)
  next
    case False
    with 3 have bt: "block_text t" and u: "u = []" by auto
    have "split_blocks (split_nl t @ [] # concat (map split_nl r)) [] []
          = split_blocks ([] # concat (map split_nl r)) ([] @ split_nl t) []"
      using bt by (intro split_blocks_nonblank_prefix) (simp add: block_text_def)
    also have "\<dots> = [split_nl t] @ split_blocks (concat (map split_nl r)) [] []"
      using split_blocks_blank [of "[]" "concat (map split_nl r)" "split_nl t"]
      by (simp add: trim_Nil split_nl_nonempty)
    finally show ?thesis
      using IH False u by (simp add: join_split_nl trim_Nil)
  qed
qed

lemma input_blocks_join_entries:
  "wf_entries Q \<Longrightarrow> input_blocks (join ''\<newline>'' Q) = filter (\<lambda>t. t \<noteq> []) Q"
proof (cases "Q = []")
  case True
  then show ?thesis by (simp add: input_blocks_def trim_Nil)
next
  case False
  assume "wf_entries Q"
  then show ?thesis
    using False by (simp add: input_blocks_def split_nl_join blocks_of_entries)
qed

lemma sep_entries_nonempty: "sep_entries E = [] \<longleftrightarrow> E = []"
  by (cases E rule: sep_entries.cases) auto

lemma join_sep_entries: "join ''\<newline>\<newline>'' E = join ''\<newline>'' (sep_entries E)"
proof (induction E rule: sep_entries.induct)
  case 1
  then show ?case by simp
next
  case (2 e)
  then show ?case by simp
next
  case (3 e e' r)
  have ne: "sep_entries (e' # r) \<noteq> []" by (simp add: sep_entries_nonempty)
  have "join ''\<newline>'' (e # [] # sep_entries (e' # r))
        = e @ ''\<newline>'' @ ''\<newline>'' @ join ''\<newline>'' (sep_entries (e' # r))"
    using ne by (simp add: join_Cons)
  with 3 show ?case by simp
qed

lemma wf_entries_blank_Cons: "wf_entries ([] # X) = wf_entries X"
  by (cases X) auto

lemma wf_sep_entries: "\<forall>e \<in> set E. block_text e \<Longrightarrow> wf_entries (sep_entries E)"
  by (induction E rule: sep_entries.induct) (simp_all add: wf_entries_blank_Cons)

lemma filter_sep_entries: "\<forall>e \<in> set E. e \<noteq> [] \<Longrightarrow> filter (\<lambda>t. t \<noteq> []) (sep_entries E) = E"
  by (induction E rule: sep_entries.induct) auto

lemma input_blocks_join_blocks:
  "\<forall>e \<in> set E. block_text e \<Longrightarrow> input_blocks (join ''\<newline>\<newline>'' E) = E"
  by (simp add: join_sep_entries input_blocks_join_entries wf_sep_entries filter_sep_entries
        block_text_nonempty')

lemma first_seen_distinct: "distinct (map f xs) \<Longrightarrow> first_seen f xs = xs"
  by (induction xs rule: rev_induct) (simp_all add: first_seen_Nil first_seen_snoc)

lemma occurrences_distinct:
  "distinct (map f xs) \<Longrightarrow> x \<in> set xs \<Longrightarrow> occurrences f xs (f x) = 1"
proof (induction xs rule: rev_induct)
  case Nil
  then show ?case by simp
next
  case (snoc y ys)
  show ?case
  proof (cases "x = y")
    case True
    with snoc.prems have "f y \<notin> f ` set ys" by simp
    with True show ?thesis by (simp add: occurrences_snoc occurrences_zero)
  next
    case False
    with snoc.prems have "x \<in> set ys" "f y \<noteq> f x" by auto
    with snoc show ?thesis by (simp add: occurrences_snoc)
  qed
qed

lemma annotate_by_distinct:
  "distinct (map f xs) \<Longrightarrow> map (annotate_by f xs) xs = xs"
  by (intro map_idI) (simp add: annotate_by_def occurrences_distinct annotate_def)

lemma emitted_block_text:
  "e \<in> set (map (annotate_by f (input_blocks log)) (first_seen f (input_blocks log))) \<Longrightarrow> block_text e"
proof -
  assume "e \<in> set (map (annotate_by f (input_blocks log)) (first_seen f (input_blocks log)))"
  then obtain t where t: "t \<in> set (first_seen f (input_blocks log))"
      and e: "e = annotate_by f (input_blocks log) t"
    by auto
  from t have "t \<in> set (input_blocks log)"
    using first_seen_subset by fastforce
  then have "block_text t" by (rule input_blocks_block_text)
  then show ?thesis
    by (simp add: e annotate_by_def block_text_annotate)
qed

lemma well_spaced_nonblank:
  "A \<noteq> [] \<Longrightarrow> \<forall>l \<in> set A. trim l \<noteq> [] \<Longrightarrow> well_spaced A"
  by (induction A rule: well_spaced.induct) auto

lemma well_spaced_append:
  "A \<noteq> [] \<Longrightarrow> \<forall>l \<in> set A. trim l \<noteq> [] \<Longrightarrow> well_spaced B \<Longrightarrow> well_spaced (A @ [] # B)"
  by (induction A rule: well_spaced.induct) (auto simp: trim_Nil)

lemma well_spaced_join_blocks:
  "E \<noteq> [] \<Longrightarrow> \<forall>e \<in> set E. block_text e \<Longrightarrow> well_spaced (split_nl (join ''\<newline>\<newline>'' E))"
proof (induction E rule: sep_entries.induct)
  case 1
  then show ?case by simp
next
  case (2 e)
  then show ?case
    by (simp add: well_spaced_nonblank split_nl_nonempty block_text_def)
next
  case (3 e e' r)
  have "split_nl (join ''\<newline>\<newline>'' (e # e' # r))
        = split_nl e @ [] # split_nl (join ''\<newline>\<newline>'' (e' # r))"
    using split_nl_append_nl [of e "CHR 0x0A # join ''\<newline>\<newline>'' (e' # r)"] by simp
  moreover have "well_spaced (split_nl (join ''\<newline>\<newline>'' (e' # r)))"
    using 3 by simp
  moreover have "split_nl e \<noteq> []" "\<forall>l \<in> set (split_nl e). trim l \<noteq> []"
    using 3(3) by (simp_all add: split_nl_nonempty block_text_def)
  ultimately show ?case
    using well_spaced_append [of "split_nl e" "split_nl (join ''\<newline>\<newline>'' (e' # r))"]
    by (simp del: join.simps)
qed

lemma wf_entries_snoc_blank: "wf_entries P \<Longrightarrow> wf_entries (P @ [[]])"
  by (induction P rule: wf_entries.induct) auto

lemma wf_entries_snoc_block:
  "wf_entries P \<Longrightarrow> P = [] \<or> last P = [] \<Longrightarrow> block_text t \<Longrightarrow> wf_entries (P @ [t])"
  by (induction P rule: wf_entries.induct) (auto simp: block_text_nonempty')

lemma wf_entries_members: "wf_entries Q \<Longrightarrow> t \<in> set Q \<Longrightarrow> t = [] \<or> block_text t"
  by (induction Q rule: wf_entries.induct) auto

lemma wf_entries_map:
  assumes "wf_entries P" and "g [] = []" and "\<And>t. block_text t \<Longrightarrow> block_text (g t)"
  shows "wf_entries (map g P)"
  using assms(1)
  by (induction P rule: wf_entries.induct) (auto simp: assms(2) assms(3))

lemma record_block_snd:
  "snd (record_block st b) = snd st \<or> snd (record_block st b) = snd st @ [join ''\<newline>'' b]"
  by (cases st) (simp add: record_block_def Let_def split: option.splits)

lemma good_lines_block_text: "b \<noteq> [] \<Longrightarrow> good_lines b \<Longrightarrow> block_text (join ''\<newline>'' b)"
  by (simp add: block_text_def good_lines_def split_nl_join_lines)

lemma record_block_wf:
  assumes "wf_entries (snd st)" and "snd st = [] \<or> last (snd st) = []"
    and "b \<noteq> []" and "good_lines b"
  shows "wf_entries (snd (record_block st b))"
  using record_block_snd [of st b] assms wf_entries_snoc_block good_lines_block_text
  by metis

lemma record_block_blanks:
  assumes "b \<noteq> []" and "good_lines b"
  shows "filter (\<lambda>t. t = []) (snd (record_block st b)) = filter (\<lambda>t. t = []) (snd st)"
proof -
  have "join ''\<newline>'' b \<noteq> []"
    using assms good_lines_block_text block_text_nonempty' by blast
  then show ?thesis
    using record_block_snd [of st b] by auto
qed

lemma open_entries_snoc_blank: "wf_entries P \<Longrightarrow> open_entries (P @ [[]])"
  by (simp add: open_entries_def wf_entries_snoc_blank)

lemma dedup_scan_blank_step:
  "trim l = [] \<Longrightarrow>
     dedup_scan (l # rest) st cur =
       dedup_scan rest (fst (if cur = [] then st else record_block st cur),
                        snd (if cur = [] then st else record_block st cur) @ [[]]) []"
  by (simp add: Let_def)

lemma dedup_scan_last_step:
  "trim l \<noteq> [] \<Longrightarrow> dedup_scan [l] st cur = record_block st (cur @ [l])"
  by (simp add: Let_def)

lemma dedup_scan_inner_step:
  "trim l \<noteq> [] \<Longrightarrow> rest \<noteq> [] \<Longrightarrow> dedup_scan (l # rest) st cur = dedup_scan rest st (cur @ [l])"
  by simp

lemma dedup_scan_wf:
  assumes "\<forall>l \<in> set ls. CHR 0x0A \<notin> set l" and "good_lines cur" and "open_entries (snd st)"
  shows "wf_entries (snd (dedup_scan ls st cur))"
  using assms
proof (induction ls arbitrary: st cur)
  case Nil
  then show ?case by (simp add: open_entries_def)
next
  case (Cons l rest)
  from Cons.prems(1) have free: "\<forall>l \<in> set rest. CHR 0x0A \<notin> set l" and l: "CHR 0x0A \<notin> set l"
    by simp_all
  show ?case
  proof (cases "trim l = []")
    case True
    define st1 where "st1 = (if cur = [] then st else record_block st cur)"
    have "wf_entries (snd st1)"
      using Cons.prems(2,3) record_block_wf [of st cur]
      by (auto simp: st1_def open_entries_def)
    then have "open_entries (snd (fst st1, snd st1 @ [[]]))"
      by (simp add: open_entries_snoc_blank)
    with free have "wf_entries (snd (dedup_scan rest (fst st1, snd st1 @ [[]]) []))"
      by (intro Cons.IH) (simp_all add: good_lines_Nil)
    then show ?thesis
      by (simp only: dedup_scan_blank_step [OF True] st1_def)
  next
    case False
    have good: "good_lines (cur @ [l])"
      using Cons.prems(2) False l by (simp add: good_lines_snoc)
    show ?thesis
    proof (cases "rest = []")
      case True
      have "wf_entries (snd (record_block st (cur @ [l])))"
        using Cons.prems(3) good by (intro record_block_wf) (simp_all add: open_entries_def)
      then show ?thesis
        by (simp only: True dedup_scan_last_step [OF False])
    next
      case nonlast: False
      have "wf_entries (snd (dedup_scan rest st (cur @ [l])))"
        using free good Cons.prems(3) by (intro Cons.IH)
      then show ?thesis
        by (simp only: dedup_scan_inner_step [OF False nonlast])
    qed
  qed
qed

lemma dedup_scan_blanks:
  assumes "\<forall>l \<in> set ls. CHR 0x0A \<notin> set l" and "good_lines cur"
  shows "length (filter (\<lambda>t. t = []) (snd (dedup_scan ls st cur)))
         = length (filter (\<lambda>t. t = []) (snd st)) + length (filter (\<lambda>l. trim l = []) ls)"
  using assms
proof (induction ls arbitrary: st cur)
  case Nil
  then show ?case by simp
next
  case (Cons l rest)
  from Cons.prems(1) have free: "\<forall>l \<in> set rest. CHR 0x0A \<notin> set l" and l: "CHR 0x0A \<notin> set l"
    by simp_all
  show ?case
  proof (cases "trim l = []")
    case True
    define st1 where "st1 = (if cur = [] then st else record_block st cur)"
    have b1: "filter (\<lambda>t. t = []) (snd st1) = filter (\<lambda>t. t = []) (snd st)"
      using Cons.prems(2) record_block_blanks [of cur st] by (simp add: st1_def)
    have "length (filter (\<lambda>t. t = []) (snd (dedup_scan rest (fst st1, snd st1 @ [[]]) [])))
          = length (filter (\<lambda>t. t = []) (snd (fst st1, snd st1 @ [[]])))
            + length (filter (\<lambda>l. trim l = []) rest)"
      using free by (intro Cons.IH) (simp_all add: good_lines_Nil)
    then show ?thesis
      using True b1 by (simp add: dedup_scan_blank_step [OF True] st1_def del: dedup_scan.simps)
  next
    case False
    have good: "good_lines (cur @ [l])"
      using Cons.prems(2) False l by (simp add: good_lines_snoc)
    show ?thesis
    proof (cases "rest = []")
      case True
      show ?thesis
        using record_block_blanks [OF _ good, of st] False
        by (simp add: True dedup_scan_last_step [OF False] del: dedup_scan.simps)
    next
      case nonlast: False
      have "length (filter (\<lambda>t. t = []) (snd (dedup_scan rest st (cur @ [l]))))
            = length (filter (\<lambda>t. t = []) (snd st)) + length (filter (\<lambda>l. trim l = []) rest)"
        using free good by (intro Cons.IH)
      then show ?thesis
        using False by (simp add: dedup_scan_inner_step [OF False nonlast] del: dedup_scan.simps)
    qed
  qed
qed

lemma processedLines_wf: "wf_entries (processedLines_of log)"
  unfolding processedLines_of_def
  by (rule dedup_scan_wf)
     (auto dest: split_nl_lines_nl_free simp: good_lines_Nil open_entries_def)

lemma processedLines_blanks:
  "length (filter (\<lambda>t. t = []) (processedLines_of log))
     = length (filter (\<lambda>l. trim l = []) (split_nl log))"
  unfolding processedLines_of_def
  using dedup_scan_blanks [of "split_nl log" "[]" "(Map.empty, [])"]
  by (auto dest: split_nl_lines_nl_free simp: good_lines_Nil)

lemma first_seen_nonempty: "xs \<noteq> [] \<Longrightarrow> first_seen f xs \<noteq> []"
  using set_first_seen [of f xs] by (cases xs) auto

lemma split_blocks_all_nonblank:
  "ls \<noteq> [] \<Longrightarrow> \<forall>l \<in> set ls. trim l \<noteq> [] \<Longrightarrow> split_blocks ls [] [] = [ls]"
  using split_blocks_nonblank_prefix [of ls "[]" "[]" "[]"] by simp

lemma processedLines_nonempty: "processedLines_of log \<noteq> []"
proof (cases "\<forall>l \<in> set (split_nl log). trim l \<noteq> []")
  case True
  then have "input_blocks log \<noteq> []"
    by (simp add: input_blocks_def split_blocks_all_nonblank split_nl_nonempty)
  then have "filter (\<lambda>t. t \<noteq> []) (processedLines_of log) \<noteq> []"
    by (simp only: home_processed_first_seen first_seen_nonempty not_False_eq_True)
  then show ?thesis by auto
next
  case False
  then have "filter (\<lambda>l. trim l = []) (split_nl log) \<noteq> []"
    by (auto simp: filter_empty_conv)
  then have "length (filter (\<lambda>t. t = []) (processedLines_of log)) \<noteq> 0"
    by (simp only: processedLines_blanks length_0_conv not_False_eq_True)
  then show ?thesis by auto
qed

lemma blank_lines_entries:
  "\<forall>t \<in> set Q. t = [] \<or> block_text t \<Longrightarrow>
     length (filter (\<lambda>l. trim l = []) (concat (map split_nl Q))) = length (filter (\<lambda>t. t = []) Q)"
proof (induction Q)
  case Nil
  then show ?case by simp
next
  case (Cons t Q)
  show ?case
  proof (cases "t = []")
    case True
    with Cons show ?thesis by (simp add: trim_Nil)
  next
    case False
    with Cons.prems have "block_text t" by simp
    then have "filter (\<lambda>l. trim l = []) (split_nl t) = []"
      by (simp add: block_text_def filter_empty_conv)
    with Cons False show ?thesis by simp
  qed
qed

lemma home_format_Nil: "home_format log [] = []"
  by (simp add: home_format_def)

lemma home_format_block_text: "block_text t \<Longrightarrow> block_text (home_format log t)"
  by (simp add: home_format_def annotate_by_def block_text_annotate block_text_nonempty')

lemma annotate_nonempty: "t \<noteq> [] \<Longrightarrow> annotate t n \<noteq> []"
  by (simp add: annotate_def)

lemma home_format_empty_iff: "home_format log t = [] \<longleftrightarrow> t = []"
  by (simp add: home_format_def annotate_by_def annotate_nonempty)

lemma home_output_format:
  "deduplicateLog_home log = join ''\<newline>'' (map (home_format log) (processedLines_of log))"
  by (simp add: home_output home_format_def [abs_def])

lemma home_output_wf: "wf_entries (map (home_format log) (processedLines_of log))"
  by (rule wf_entries_map) (simp_all add: processedLines_wf home_format_Nil home_format_block_text)

lemma home_output_blank_lines:
  "length (filter (\<lambda>l. trim l = []) (split_nl (deduplicateLog_home log)))
     = length (filter (\<lambda>l. trim l = []) (split_nl log))"
proof -
  let ?Q = "map (home_format log) (processedLines_of log)"
  have "split_nl (deduplicateLog_home log) = concat (map split_nl ?Q)"
    by (simp add: home_output_format split_nl_join processedLines_nonempty)
  moreover have "\<forall>t \<in> set ?Q. t = [] \<or> block_text t"
    using wf_entries_members [OF home_output_wf] by blast
  moreover have "filter (\<lambda>t. t = []) ?Q = map (home_format log) (filter (\<lambda>t. t = []) (processedLines_of log))"
    by (simp add: filter_map comp_def home_format_empty_iff)
  ultimately show ?thesis
    using blank_lines_entries [of ?Q] by (simp add: processedLines_blanks)
qed

lemma blank_entries_sep:
  "\<forall>e \<in> set E. e \<noteq> [] \<Longrightarrow> length (filter (\<lambda>t. t = []) (sep_entries E)) = length E - 1"
  by (induction E rule: sep_entries.induct) simp_all

lemma blank_lines_join_blocks:
  assumes "E \<noteq> []" and "\<forall>e \<in> set E. block_text e"
  shows "length (filter (\<lambda>l. trim l = []) (split_nl (join ''\<newline>\<newline>'' E))) = length E - 1"
proof -
  have "split_nl (join ''\<newline>\<newline>'' E) = concat (map split_nl (sep_entries E))"
    using assms(1) by (simp add: join_sep_entries split_nl_join sep_entries_nonempty)
  moreover have "\<forall>t \<in> set (sep_entries E). t = [] \<or> block_text t"
    using wf_entries_members [OF wf_sep_entries [OF assms(2)]] by blast
  moreover have "\<forall>e \<in> set E. e \<noteq> []"
    using assms(2) block_text_nonempty' by blast
  ultimately show ?thesis
    by (simp add: blank_lines_entries blank_entries_sep)
qed

lemma blocks_output_first_seen:
  "deduplicateLog_blocks log =
     join ''\<newline>\<newline>'' (map (annotate_by id (input_blocks log)) (first_seen id (input_blocks log)))"
  by (simp only: blocks_output blocks_unique_first_seen)

section \<open>Blank lines in the output\<close>

text \<open>
  C7, as stated, fails for the variant of the current page: the output for an input with
  a leading blank line, two blank lines between two blocks and a trailing newline has an
  empty first line, two empty lines between the blocks and an empty last line.
\<close>

theorem blank_line_separation_counterexample:
  "split_nl (deduplicateLog_home ''\<newline>A\<newline>\<newline>\<newline>B\<newline>'') = [[], ''A'', [], [], ''B'', []]"
  by code_simp

text \<open>
  C7, amended. The output of the exact-block variant is empty when the input has no
  block; otherwise its first and last lines are non-blank, no two blank lines are
  adjacent, and it has one blank line fewer than it has blocks, so that consecutive
  blocks are separated by exactly one blank line and blank lines of the input leave no
  empty block. The output of the variant of the current page has as many blank lines as
  its input.
\<close>

theorem blank_line_separation:
  "(if input_blocks log = [] then deduplicateLog_blocks log = []
    else well_spaced (split_nl (deduplicateLog_blocks log))
         \<and> length (filter (\<lambda>l. trim l = []) (split_nl (deduplicateLog_blocks log)))
             = length (first_seen id (input_blocks log)) - 1)
   \<and> length (filter (\<lambda>l. trim l = []) (split_nl (deduplicateLog_home log)))
       = length (filter (\<lambda>l. trim l = []) (split_nl log))"
proof -
  let ?E = "map (annotate_by id (input_blocks log)) (first_seen id (input_blocks log))"
  have "deduplicateLog_blocks log = []" if "input_blocks log = []"
    using that by (simp add: blocks_output_first_seen first_seen_Nil)
  moreover have "well_spaced (split_nl (deduplicateLog_blocks log))
         \<and> length (filter (\<lambda>l. trim l = []) (split_nl (deduplicateLog_blocks log)))
             = length (first_seen id (input_blocks log)) - 1" if "input_blocks log \<noteq> []"
  proof -
    from that have ne: "?E \<noteq> []" by (simp add: first_seen_nonempty)
    have bt: "\<forall>e \<in> set ?E. block_text e"
      using emitted_block_text by blast
    have "well_spaced (split_nl (join ''\<newline>\<newline>'' ?E))"
      using ne bt by (rule well_spaced_join_blocks)
    moreover have "length (filter (\<lambda>l. trim l = []) (split_nl (join ''\<newline>\<newline>'' ?E)))
                   = length ?E - 1"
      using ne bt by (rule blank_lines_join_blocks)
    ultimately show ?thesis
      by (simp add: blocks_output_first_seen)
  qed
  ultimately show ?thesis
    using home_output_blank_lines [of log] by simp
qed

theorem blank_line_separation_witness:
  "well_spaced (split_nl (deduplicateLog_blocks ''\<newline>\<newline>A\<newline>b\<newline> \<newline>\<newline>A\<newline>b\<newline>\<newline>C\<newline>\<newline>''))
   \<and> deduplicateLog_blocks ''\<newline>\<newline>A\<newline>b\<newline> \<newline>\<newline>A\<newline>b\<newline>\<newline>C\<newline>\<newline>'' = ''A\<newline>b [x2]\<newline>\<newline>C''"
proof -
  have "input_blocks ''\<newline>\<newline>A\<newline>b\<newline> \<newline>\<newline>A\<newline>b\<newline>\<newline>C\<newline>\<newline>'' \<noteq> []"
    by code_simp
  moreover have "deduplicateLog_blocks ''\<newline>\<newline>A\<newline>b\<newline> \<newline>\<newline>A\<newline>b\<newline>\<newline>C\<newline>\<newline>'' = ''A\<newline>b [x2]\<newline>\<newline>C''"
    by code_simp
  ultimately show ?thesis
    using blank_line_separation [of "''\<newline>\<newline>A\<newline>b\<newline> \<newline>\<newline>A\<newline>b\<newline>\<newline>C\<newline>\<newline>''"]
    by (simp only: if_False simp_thms)
qed

section \<open>A second pass over an output\<close>

lemma dedup_scan_nonblank_prefix:
  "\<forall>l \<in> set b. trim l \<noteq> [] \<Longrightarrow> rest \<noteq> [] \<Longrightarrow>
     dedup_scan (b @ rest) st cur = dedup_scan rest st (cur @ b)"
proof (induction b arbitrary: cur)
  case Nil
  then show ?case by simp
next
  case (Cons l b)
  then have "dedup_scan (l # (b @ rest)) st cur = dedup_scan (b @ rest) st (cur @ [l])"
    by (intro dedup_scan_inner_step) simp_all
  with Cons show ?case by simp
qed

lemma dedup_scan_whole_block:
  assumes "b \<noteq> []" and "\<forall>l \<in> set b. trim l \<noteq> []"
  shows "dedup_scan b st [] = record_block st b"
proof -
  have "\<forall>l \<in> set (butlast b). trim l \<noteq> []"
    using assms(2) by (auto dest: in_set_butlastD)
  then have "dedup_scan (butlast b @ [last b]) st [] = dedup_scan [last b] st ([] @ butlast b)"
    by (intro dedup_scan_nonblank_prefix) simp_all
  moreover have "trim (last b) \<noteq> []"
    using assms by simp
  ultimately show ?thesis
    using assms(1) by (simp add: dedup_scan_last_step del: dedup_scan.simps)
qed

lemma dedup_scan_block_then_blank:
  "b \<noteq> [] \<Longrightarrow> dedup_scan ([] # rest) st b = dedup_scan ([] # rest) (record_block st b) []"
  by (simp add: dedup_scan_blank_step trim_Nil del: dedup_scan.simps)

lemma record_block_new:
  "C (normalizeErrorMessage (join ''\<newline>'' b)) = None \<Longrightarrow>
     record_block (C, P) b =
       (C(normalizeErrorMessage (join ''\<newline>'' b) \<mapsto>
            \<lparr>count = 1, originalMessage = join ''\<newline>'' b\<rparr>),
        P @ [join ''\<newline>'' b])"
  by (simp add: record_block_def Let_def)

lemma scan_entries:
  assumes "wf_entries Q"
    and "distinct (map normalizeErrorMessage (filter (\<lambda>t. t \<noteq> []) Q))"
    and "\<forall>t \<in> set Q. t \<noteq> [] \<longrightarrow> C (normalizeErrorMessage t) = None"
  shows "snd (dedup_scan (concat (map split_nl Q)) (C, P) []) = P @ Q"
  using assms
proof (induction Q arbitrary: C P rule: wf_entries.induct)
  case 1
  then show ?case by simp
next
  case (2 t)
  show ?case
  proof (cases "t = []")
    case True
    then show ?thesis by (simp add: trim_Nil)
  next
    case False
    with 2 have bt: "block_text t" and new: "C (normalizeErrorMessage t) = None" by simp_all
    have "dedup_scan (split_nl t) (C, P) [] = record_block (C, P) (split_nl t)"
      using bt by (intro dedup_scan_whole_block) (simp_all add: split_nl_nonempty block_text_def)
    then show ?thesis
      using new by (simp add: record_block_new join_split_nl del: dedup_scan.simps)
  qed
next
  case (3 t u r)
  show ?case
  proof (cases "t = []")
    case True
    have wf: "wf_entries (u # r)"
      using 3(2) by simp
    have d: "distinct (map normalizeErrorMessage (filter (\<lambda>t. t \<noteq> []) (u # r)))"
      using 3(3) True by simp
    have fresh: "\<forall>t' \<in> set (u # r). t' \<noteq> [] \<longrightarrow> C (normalizeErrorMessage t') = None"
      using 3(4) by simp
    have "snd (dedup_scan (concat (map split_nl (u # r))) (C, P @ [[]]) []) = (P @ [[]]) @ u # r"
      by (rule 3(1) [OF wf d fresh])
    then show ?thesis
      using True by (simp add: dedup_scan_blank_step trim_Nil del: dedup_scan.simps)
  next
    case False
    with 3(2) have bt: "block_text t" and u: "u = []" by auto
    from 3(4) False have new: "C (normalizeErrorMessage t) = None" by simp
    define C' where "C' = C(normalizeErrorMessage t \<mapsto> \<lparr>count = 1, originalMessage = t\<rparr>)"
    have rb: "record_block (C, P) (split_nl t) = (C', P @ [t])"
      using new by (simp add: record_block_new join_split_nl C'_def)
    have fresh: "\<forall>t' \<in> set (u # r). t' \<noteq> [] \<longrightarrow> C' (normalizeErrorMessage t') = None"
      using 3(3,4) False u by (auto simp: C'_def image_iff)
    have wf: "wf_entries (u # r)"
      using 3(2) by simp
    have d: "distinct (map normalizeErrorMessage (filter (\<lambda>t. t \<noteq> []) (u # r)))"
      using 3(3) False by simp
    have IH: "snd (dedup_scan (concat (map split_nl (u # r))) (C', P @ [t]) []) = (P @ [t]) @ u # r"
      by (rule 3(1) [OF wf d fresh])
    have "dedup_scan (split_nl t @ [] # concat (map split_nl r)) (C, P) []
          = dedup_scan ([] # concat (map split_nl r)) (C, P) ([] @ split_nl t)"
      using bt by (intro dedup_scan_nonblank_prefix) (simp_all add: block_text_def)
    also have "\<dots> = dedup_scan ([] # concat (map split_nl r)) (C', P @ [t]) []"
      using dedup_scan_block_then_blank [of "split_nl t" "concat (map split_nl r)" "(C, P)"]
      by (simp add: split_nl_nonempty rb del: dedup_scan.simps)
    finally show ?thesis
      using IH u by (simp del: dedup_scan.simps)
  qed
qed

lemma processedLines_join_entries:
  assumes "wf_entries Q" and "Q \<noteq> []"
    and "distinct (map normalizeErrorMessage (filter (\<lambda>t. t \<noteq> []) Q))"
  shows "processedLines_of (join ''\<newline>'' Q) = Q"
  using scan_entries [OF assms(1,3), of Map.empty "[]"] assms(2)
  by (simp add: processedLines_of_def split_nl_join)

lemma home_format_distinct:
  assumes "wf_entries Q"
    and "distinct (map normalizeErrorMessage (filter (\<lambda>t. t \<noteq> []) Q))"
  shows "map (home_format (join ''\<newline>'' Q)) Q = Q"
proof (rule map_idI)
  fix t assume t: "t \<in> set Q"
  show "home_format (join ''\<newline>'' Q) t = t"
  proof (cases "t = []")
    case True
    then show ?thesis by (simp add: home_format_Nil)
  next
    case False
    with t have "t \<in> set (filter (\<lambda>t. t \<noteq> []) Q)" by simp
    then have "occurrences normalizeErrorMessage (filter (\<lambda>t. t \<noteq> []) Q) (normalizeErrorMessage t) = 1"
      using assms(2) by (intro occurrences_distinct)
    then show ?thesis
      using False by (simp add: home_format_def annotate_by_def annotate_def
          input_blocks_join_entries [OF assms(1)])
  qed
qed

lemma home_idempotent_entries:
  assumes "wf_entries Q" and "Q \<noteq> []"
    and "distinct (map normalizeErrorMessage (filter (\<lambda>t. t \<noteq> []) Q))"
  shows "deduplicateLog_home (join ''\<newline>'' Q) = join ''\<newline>'' Q"
  by (simp add: home_output_format processedLines_join_entries [OF assms]
        home_format_distinct [OF assms(1,3)])

lemma home_emitted_nonempty:
  "filter (\<lambda>t. t \<noteq> []) (map (home_format log) (processedLines_of log))
     = map (annotate_by normalizeErrorMessage (input_blocks log))
           (first_seen normalizeErrorMessage (input_blocks log))"
proof -
  have "filter (\<lambda>t. t \<noteq> []) (map (home_format log) (processedLines_of log))
        = map (home_format log) (filter (\<lambda>t. t \<noteq> []) (processedLines_of log))"
    by (simp add: filter_map comp_def home_format_empty_iff)
  also have "\<dots> = map (annotate_by normalizeErrorMessage (input_blocks log))
                     (filter (\<lambda>t. t \<noteq> []) (processedLines_of log))"
    by (rule map_cong) (simp_all add: home_format_def)
  finally show ?thesis
    by (simp only: home_processed_first_seen)
qed

lemma blocks_idempotent_entries:
  assumes "\<forall>e \<in> set E. block_text e" and "distinct E"
  shows "deduplicateLog_blocks (join ''\<newline>\<newline>'' E) = join ''\<newline>\<newline>'' E"
proof -
  have "distinct (map id E)" using assms(2) by simp
  then have "first_seen id E = E" "map (annotate_by id E) E = E"
    by (rule first_seen_distinct, rule annotate_by_distinct)
  then show ?thesis
    by (simp add: blocks_output_first_seen input_blocks_join_blocks [OF assms(1)])
qed

text \<open>
  C5, as stated, fails for both variants: for the current page, a block with a bracketed
  tag and the annotated block of a duplicate have the same fingerprint, and the second
  pass merges them; for the exact-block variant, a block that already ends in an
  annotation coincides with the annotated duplicate.
\<close>

theorem idempotence_counterexample:
  "deduplicateLog_home (deduplicateLog_home ''A\<newline>\<newline>A\<newline>\<newline>A [foo]'') = ''A [x2] [x2]\<newline>\<newline>''
   \<and> deduplicateLog_home ''A\<newline>\<newline>A\<newline>\<newline>A [foo]'' = ''A [x2]\<newline>\<newline>\<newline>A [foo]''
   \<and> deduplicateLog_blocks (deduplicateLog_blocks ''A [x2]\<newline>\<newline>A\<newline>\<newline>A'') = ''A [x2] [x2]''
   \<and> deduplicateLog_blocks ''A [x2]\<newline>\<newline>A\<newline>\<newline>A'' = ''A [x2]\<newline>\<newline>A [x2]''"
  by code_simp

text \<open>
  C5, amended. A second pass returns the output of the first whenever the blocks emitted
  by the first pass, annotations included, have pairwise distinct fingerprints: distinct
  texts in the exact-block variant, distinct \<^verbatim>\<open>normalizeErrorMessage\<close> images in the
  variant of the current page.
\<close>

theorem idempotent_when_distinct:
  "(distinct (map (annotate_by id (input_blocks log)) (first_seen id (input_blocks log))) \<longrightarrow>
      deduplicateLog_blocks (deduplicateLog_blocks log) = deduplicateLog_blocks log)
   \<and> (distinct (map normalizeErrorMessage
                   (map (annotate_by normalizeErrorMessage (input_blocks log))
                        (first_seen normalizeErrorMessage (input_blocks log)))) \<longrightarrow>
      deduplicateLog_home (deduplicateLog_home log) = deduplicateLog_home log)"
proof (intro conjI impI)
  let ?E = "map (annotate_by id (input_blocks log)) (first_seen id (input_blocks log))"
  assume "distinct ?E"
  moreover have "\<forall>e \<in> set ?E. block_text e"
    using emitted_block_text by blast
  ultimately have "deduplicateLog_blocks (join ''\<newline>\<newline>'' ?E) = join ''\<newline>\<newline>'' ?E"
    by (intro blocks_idempotent_entries)
  then show "deduplicateLog_blocks (deduplicateLog_blocks log) = deduplicateLog_blocks log"
    by (simp only: blocks_output_first_seen)
next
  let ?Q = "map (home_format log) (processedLines_of log)"
  assume "distinct (map normalizeErrorMessage
                   (map (annotate_by normalizeErrorMessage (input_blocks log))
                        (first_seen normalizeErrorMessage (input_blocks log))))"
  then have "distinct (map normalizeErrorMessage (filter (\<lambda>t. t \<noteq> []) ?Q))"
    by (simp only: home_emitted_nonempty)
  moreover have "?Q \<noteq> []" by (simp add: processedLines_nonempty)
  ultimately have "deduplicateLog_home (join ''\<newline>'' ?Q) = join ''\<newline>'' ?Q"
    using home_output_wf by (intro home_idempotent_entries)
  then show "deduplicateLog_home (deduplicateLog_home log) = deduplicateLog_home log"
    by (simp only: home_output_format)
qed

theorem idempotent_when_distinct_witness:
  "deduplicateLog_blocks (deduplicateLog_blocks ''A 1\<newline>\<newline>A 2\<newline>\<newline>B\<newline>\<newline>A 1'')
     = deduplicateLog_blocks ''A 1\<newline>\<newline>A 2\<newline>\<newline>B\<newline>\<newline>A 1''
   \<and> deduplicateLog_home (deduplicateLog_home ''A 1\<newline>\<newline>A 2\<newline>\<newline>B\<newline>\<newline>A 1'')
     = deduplicateLog_home ''A 1\<newline>\<newline>A 2\<newline>\<newline>B\<newline>\<newline>A 1''"
proof -
  let ?log = "''A 1\<newline>\<newline>A 2\<newline>\<newline>B\<newline>\<newline>A 1''"
  have 1: "distinct (map (annotate_by id (input_blocks ?log)) (first_seen id (input_blocks ?log)))"
    by code_simp
  have 2: "distinct (map normalizeErrorMessage
                   (map (annotate_by normalizeErrorMessage (input_blocks ?log))
                        (first_seen normalizeErrorMessage (input_blocks ?log))))"
    by code_simp
  from idempotent_when_distinct [of ?log] 1 2 show ?thesis by blast
qed

section \<open>The normalizers\<close>

lemma replace_all_prev_indep:
  assumes "\<And>p q s. m p s = m q s"
  shows "replace_all m r p s = replace_all m r q s"
  using assms
proof (induction m r p s arbitrary: q rule: replace_all.induct)
  case (1 m r prev)
  have e: "m prev [] = m q []" by (rule 1)
  show ?case by (simp only: replace_all.simps e)
next
  case (2 m r prev c cs)
  have eq: "m prev (c # cs) = m q (c # cs)" by (rule "2.prems")
  show ?case
  proof (cases "m q (c # cs)")
    case None
    with eq "2.IH"(1) [of q] "2.prems" show ?thesis by simp
  next
    case (Some n)
    show ?thesis
    proof (cases n)
      case 0
      with Some eq "2.IH"(2) [of n q] "2.prems" show ?thesis by simp
    next
      case (Suc k)
      with Some eq "2.IH"(3) [of n k "Some ((c # cs) ! k)"] "2.prems" show ?thesis by simp
    qed
  qed
qed


















lemma ds_dropWhile_digit:
  "digit_similar s t \<Longrightarrow> digit_similar (dropWhile is_digit s) (dropWhile is_digit t)"
proof (induction rule: digit_similar.induct)
  case ds_Nil
  then show ?case by (simp add: digit_similar.ds_Nil)
next
  case (ds_Cons c s t)
  then show ?case by (simp add: digit_similar.ds_Cons)
next
  case (ds_run d1 d2 s t)
  then show ?case by (simp add: dropWhile_append)
qed














subsection \<open>A replacement pass at a boundary\<close>




















lemma syslog_pass_any: "replace_all match_syslog ''<TIME>'' p s = syslog_pass s"
  unfolding syslog_pass_def by (rule replace_all_prev_indep) (simp add: match_syslog_def)







subsection \<open>The timestamp pattern\<close>









lemma ends_numeric_Nil: "\<not> ends_numeric []"
  by (simp add: ends_numeric_def)










subsection \<open>The syslog pattern\<close>















lemma word_ws_not_dash: "is_word c \<Longrightarrow> c \<noteq> CHR ''-''" "is_ws c \<Longrightarrow> c \<noteq> CHR ''-''"
  by (auto simp: is_word_def is_ws_def)



subsection \<open>The address and number patterns\<close>


















subsection \<open>One token in a line\<close>
















end
